theory Spec2Isabelle
  imports Main
begin

section \<open>HTMLInstrumentation: data model\<close>

text \<open>
  Embedding of \<^verbatim>\<open>src/language/HTMLInstrumentation.js\<close>.

  Source offsets and lengths are indices into the document text, so they are natural
  numbers; the differences the scanner stores in \<^verbatim>\<open>unclosedLength\<close> can be negative
  in JavaScript and are integers here. Strings are \<^typ>\<open>string\<close>. The tokenizer
  \<^verbatim>\<open>DOMHelpers.eachNode\<close> is an external collaborator: every function that calls it
  takes it as the parameter \<open>eachNode\<close>, the list of payloads it passes to the callback
  for a given text.
\<close>

text \<open>A node descriptor as the tokenizer passes it to the callback of \<^verbatim>\<open>eachNode\<close>.
  An absent \<^verbatim>\<open>nodeName\<close> is \<open>None\<close>; absent flags are \<open>False\<close>.\<close>

record payload =
  nodeType :: int
  nodeName :: "string option"
  closed :: bool
  closing :: bool
  sourceOffset :: nat
  sourceLength :: nat

text \<open>An entry of \<^verbatim>\<open>tagStack\<close>: the payload of an opening tag together with the
  property \<^verbatim>\<open>unclosedLength\<close> that the scanner adds to it (unset when pushed).\<close>

record open_tag =
  node :: payload
  unclosedLength :: "int option"

text \<open>An element of the array \<^verbatim>\<open>tags\<close> (a TagSpan).\<close>

record tag =
  name :: string
  data :: nat
  start :: nat
  end' :: int

text \<open>A value of \<^verbatim>\<open>_cachedValues\<close>.\<close>

record snapshot =
  timestamp :: int
  cachedTags :: "tag list"

record document =
  fullPath :: string
  diskTimestamp :: int
  getText :: string

text \<open>The module's mutable state: \<^verbatim>\<open>_cachedValues\<close>, the messages written with
  \<^verbatim>\<open>console.error\<close> (oldest first), and what \<^verbatim>\<open>MarkedTextTracker\<close> holds for the
  category \<^verbatim>\<open>"htmlTagID"\<close>, keyed by the full path of the editor's document.\<close>

record state =
  cachedValues :: "string \<rightharpoonup> snapshot"
  console :: "string list"
  marks :: "string \<rightharpoonup> tag list"

text \<open>The local variables of one run of the scanner.\<close>

record scan_state =
  tags :: "tag list"
  tagStack :: "open_tag list"
  tagID :: nat
  errors :: "string list"

section \<open>JavaScript primitives\<close>

text \<open>Truthiness of a string-or-undefined value and of a number-or-undefined value.\<close>

fun truthy_string :: "string option \<Rightarrow> bool" where
  "truthy_string None = False"
| "truthy_string (Some s) = (s \<noteq> [])"

fun truthy_number :: "int option \<Rightarrow> bool" where
  "truthy_number None = False"
| "truthy_number (Some n) = (n \<noteq> 0)"

text \<open>The flag \<^verbatim>\<open>i\<close> of a regular expression folds the case of ASCII letters only.\<close>

definition to_lower :: "char \<Rightarrow> char" where
  "to_lower c =
     (case map_of (zip ''ABCDEFGHIJKLMNOPQRSTUVWXYZ'' ''abcdefghijklmnopqrstuvwxyz'') c of
        Some l \<Rightarrow> l
      | None \<Rightarrow> c)"

fun starts_with :: "string \<Rightarrow> string \<Rightarrow> bool" where
  "starts_with [] s = True"
| "starts_with (a # as) [] = False"
| "starts_with (a # as) (c # cs) = (a = c \<and> starts_with as cs)"

text \<open>\<open>occurs_in a s\<close>: the string \<open>a\<close> occurs somewhere in \<open>s\<close>. An unanchored literal
  alternative of a regular expression matches exactly then.\<close>

fun occurs_in :: "string \<Rightarrow> string \<Rightarrow> bool" where
  "occurs_in a [] = (a = [])"
| "occurs_in a (c # cs) = (starts_with a (c # cs) \<or> occurs_in a cs)"

text \<open>The alternatives of the regular expression of \<^verbatim>\<open>_isEmptyTag\<close>, in its order.\<close>

definition empty_tag_alternatives :: "string list" where
  "empty_tag_alternatives =
     [''!doctype'', ''area'', ''base'', ''basefont'', ''br'', ''wbr'', ''col'', ''frame'',
      ''hr'', ''img'', ''input'', ''isindex'', ''link'', ''meta'', ''param'', ''embed'']"

text \<open>\<^verbatim>\<open>/(!doctype|area|...|embed)/i.test(s)\<close>: no anchors, case-insensitive.\<close>

definition regex_test :: "string \<Rightarrow> bool" where
  "regex_test s = list_ex (\<lambda>a. occurs_in a (map to_lower s)) empty_tag_alternatives"

text \<open>Decimal digits of a number, as \<^verbatim>\<open>"" + n\<close> gives them for a non-negative integer.\<close>

fun number_to_string :: "nat \<Rightarrow> string" where
  "number_to_string n =
     (if n < 10 then [''0123456789'' ! n]
      else number_to_string (n div 10) @ [''0123456789'' ! (n mod 10)])"

declare number_to_string.simps [simp del]

text \<open>\<^verbatim>\<open>s.substr(from, len)\<close> and \<^verbatim>\<open>s.substr(from)\<close> for non-negative arguments.\<close>

definition substr :: "string \<Rightarrow> nat \<Rightarrow> nat \<Rightarrow> string" where
  "substr s from len = take len (drop from s)"

definition substr_from :: "string \<Rightarrow> nat \<Rightarrow> string" where
  "substr_from s from = drop from s"

text \<open>The comparison function given to \<^verbatim>\<open>tags.sort\<close>.\<close>

definition compare_start :: "tag \<Rightarrow> tag \<Rightarrow> int" where
  "compare_start a b = (if start a < start b then - 1 else if start a = start b then 0 else 1)"

text \<open>\<^verbatim>\<open>Array.prototype.sort\<close> with a comparison function, as a stable insertion sort:
  an element goes before the first element that it does not compare greater than.\<close>

fun insert_by :: "('a \<Rightarrow> 'a \<Rightarrow> int) \<Rightarrow> 'a \<Rightarrow> 'a list \<Rightarrow> 'a list" where
  "insert_by cmp x [] = [x]"
| "insert_by cmp x (y # ys) = (if cmp x y \<le> 0 then x # y # ys else y # insert_by cmp x ys)"

fun sort_by :: "('a \<Rightarrow> 'a \<Rightarrow> int) \<Rightarrow> 'a list \<Rightarrow> 'a list" where
  "sort_by cmp [] = []"
| "sort_by cmp (x # xs) = insert_by cmp x (sort_by cmp xs)"

section \<open>The tag classifier\<close>

text \<open>\<^verbatim>\<open>_isEmptyTag\<close> (lines 58-69).\<close>

definition isEmptyTag :: "payload \<Rightarrow> bool" where
  "isEmptyTag p =
     (if closed p \<or> \<not> truthy_string (nodeName p) then True
      else case nodeName p of
             None \<Rightarrow> True
           | Some n \<Rightarrow> if regex_test n then True else False)"

section \<open>The scanner\<close>

text \<open>The \<^verbatim>\<open>nodeName\<close> of a payload where the source reads it as a string: of a
  payload that passed the test \<^verbatim>\<open>payload.nodeName\<close> of line 98, and of the entries of
  \<^verbatim>\<open>tagStack\<close>, which are such payloads.\<close>

definition nameOf :: "payload \<Rightarrow> string" where
  "nameOf p = (case nodeName p of Some n \<Rightarrow> n | None \<Rightarrow> [])"

text \<open>Lines 100-110: the first time the top of \<^verbatim>\<open>tagStack\<close> has no truthy
  \<^verbatim>\<open>unclosedLength\<close>, it is set. The top of the stack is the head of the list.\<close>

fun setUnclosedLength :: "string \<Rightarrow> payload \<Rightarrow> open_tag list \<Rightarrow> open_tag list" where
  "setUnclosedLength text p [] = []"
| "setUnclosedLength text p (t # below) =
     (if \<not> truthy_number (unclosedLength t) then
        (if nodeName (node t) = Some ''HTML'' \<or> nodeName (node t) = Some ''BODY'' then
           t\<lparr>unclosedLength := Some (int (length text) - int (sourceOffset (node t)))\<rparr>
         else
           t\<lparr>unclosedLength := Some (int (sourceOffset p) - int (sourceOffset (node t)))\<rparr>)
        # below
      else t # below)"

text \<open>Lines 125-131: the loop from the top of the stack down to the first entry whose
  \<^verbatim>\<open>nodeName\<close> is that of the payload; the entry found is spliced out.\<close>

fun findStartTag :: "string option \<Rightarrow> open_tag list \<Rightarrow> (open_tag \<times> open_tag list) option" where
  "findStartTag n [] = None"
| "findStartTag n (t # below) =
     (if nodeName (node t) = n then Some (t, below)
      else case findStartTag n below of
             None \<Rightarrow> None
           | Some (startTag, rest) \<Rightarrow> Some (startTag, t # rest))"

text \<open>The callback given to \<^verbatim>\<open>eachNode\<close> (lines 93-148).\<close>

definition callback :: "string \<Rightarrow> scan_state \<Rightarrow> payload \<Rightarrow> scan_state" where
  "callback text s p =
     (if closing p \<and> isEmptyTag p then s
      else if nodeType p = 1 \<and> truthy_string (nodeName p) then
        (let s1 = s\<lparr>tagStack := setUnclosedLength text p (tagStack s)\<rparr> in
         if isEmptyTag p then
           s1\<lparr>tags := tags s1 @
                  [\<lparr>name = nameOf p, data = tagID s1, start = sourceOffset p,
                    end' = int (sourceOffset p) + int (sourceLength p)\<rparr>],
               tagID := tagID s1 + 1\<rparr>
         else if closing p then
           (case findStartTag (nodeName p) (tagStack s1) of
              Some (startTag, rest) \<Rightarrow>
                s1\<lparr>tagStack := rest,
                    tags := tags s1 @
                      [\<lparr>name = nameOf (node startTag), data = tagID s1,
                        start = sourceOffset (node startTag),
                        end' = int (sourceOffset p) + int (sourceLength p)\<rparr>],
                    tagID := tagID s1 + 1\<rparr>
            | None \<Rightarrow> s1\<lparr>errors := errors s1 @ [''Unmatched end tag: '' @ nameOf p]\<rparr>)
         else
           s1\<lparr>tagStack := \<lparr>node = p, unclosedLength = None\<rparr> # tagStack s1\<rparr>)
      else s)"

text \<open>Lines 151-160: the remaining entries are popped from the top.\<close>

fun drain :: "open_tag list \<Rightarrow> nat \<Rightarrow> tag list" where
  "drain [] i = []"
| "drain (t # below) i =
     \<lparr>name = nameOf (node t), data = i, start = sourceOffset (node t),
      end' = int (sourceOffset (node t)) +
             (if truthy_number (unclosedLength t) then
                (case unclosedLength t of Some u \<Rightarrow> u | None \<Rightarrow> 0)
              else int (sourceLength (node t)))\<rparr>
     # drain below (i + 1)"

definition scan_init :: scan_state where
  "scan_init = \<lparr>tags = [], tagStack = [], tagID = 1, errors = []\<rparr>"

text \<open>The state when the tokenizer has delivered all its payloads.\<close>

definition scan_nodes :: "string \<Rightarrow> payload list \<Rightarrow> scan_state" where
  "scan_nodes text ps = foldl (callback text) scan_init ps"

text \<open>The array \<^verbatim>\<open>tags\<close> before it is sorted (line 161).\<close>

definition scan_unsorted :: "string \<Rightarrow> payload list \<Rightarrow> tag list" where
  "scan_unsorted text ps =
     (let s = scan_nodes text ps in tags s @ drain (tagStack s) (tagID s))"

text \<open>Lines 85-171: the scan of a text, given the payloads of its tokenizer.\<close>

definition scan :: "string \<Rightarrow> payload list \<Rightarrow> tag list" where
  "scan text ps = sort_by compare_start (scan_unsorted text ps)"

section \<open>The scan cache\<close>

text \<open>\<^verbatim>\<open>scanDocument\<close> (lines 76-180). It returns the tags and the new state of the
  module: on a rescan the messages of the scanner are written to the console and the
  snapshot of the document is replaced.\<close>

definition rescan :: "(string \<Rightarrow> payload list) \<Rightarrow> state \<Rightarrow> document \<Rightarrow> tag list \<times> state" where
  "rescan eachNode st doc =
     (let text = getText doc;
          ps = eachNode text;
          ts = scan text ps
      in (ts, st\<lparr>cachedValues := (cachedValues st)
                     (fullPath doc \<mapsto> \<lparr>timestamp = diskTimestamp doc, cachedTags = ts\<rparr>),
                 console := console st @ errors (scan_nodes text ps)\<rparr>))"

definition scanDocument :: "(string \<Rightarrow> payload list) \<Rightarrow> state \<Rightarrow> document \<Rightarrow> tag list \<times> state" where
  "scanDocument eachNode st doc =
     (case cachedValues st (fullPath doc) of
        Some cachedValue \<Rightarrow>
          if timestamp cachedValue = diskTimestamp doc then (cachedTags cachedValue, st)
          else rescan eachNode st doc
      | None \<Rightarrow> rescan eachNode st doc)"

section \<open>The instrumentation generator\<close>

definition attrText :: "tag \<Rightarrow> string" where
  "attrText t = '' data-brackets-id='' @ [CHR 0x27] @ number_to_string (data t) @ [CHR 0x27]"

text \<open>The function given to \<^verbatim>\<open>tags.forEach\<close> (lines 197-204), on the variables
  \<^verbatim>\<open>gen\<close> and \<^verbatim>\<open>insertCount\<close>.\<close>

definition insertAttr :: "string \<times> nat \<Rightarrow> tag \<Rightarrow> string \<times> nat" where
  "insertAttr gi t =
     (let gen = fst gi; insertCount = snd gi;
          insertIndex = start t + length (name t) + 1 + insertCount
      in (substr gen 0 insertIndex @ attrText t @ substr_from gen insertIndex,
          insertCount + length (attrText t)))"

text \<open>\<^verbatim>\<open>generateInstrumentedHTML\<close> (lines 190-207).\<close>

definition instrument :: "string \<Rightarrow> tag list \<Rightarrow> string" where
  "instrument text ts = fst (foldl insertAttr (text, 0) ts)"

definition generateInstrumentedHTML ::
  "(string \<Rightarrow> payload list) \<Rightarrow> state \<Rightarrow> document \<Rightarrow> string \<times> state" where
  "generateInstrumentedHTML eachNode st doc =
     (let (ts, st') = scanDocument eachNode st doc
      in (instrument (getText doc) ts, st'))"

section \<open>The position resolver\<close>

text \<open>Modelled from the spec: \<^verbatim>\<open>utils/MarkedTextTracker\<close> is not part of the sources.
  The range tracker accepts a list of tag spans to seed the tracked ranges of an editor,
  and returns the ranges of that editor that overlap a position, each carrying the
  identity it was seeded with. A position is a character offset here, and the ranges are
  the seeded spans.\<close>

definition MarkedTextTracker_markText ::
  "(string \<rightharpoonup> tag list) \<Rightarrow> string \<Rightarrow> tag list \<Rightarrow> (string \<rightharpoonup> tag list)" where
  "MarkedTextTracker_markText m editor ts = m(editor \<mapsto> ts)"

definition MarkedTextTracker_getRangesAtDocumentPos ::
  "(string \<rightharpoonup> tag list) \<Rightarrow> string \<Rightarrow> nat \<Rightarrow> tag list" where
  "MarkedTextTracker_getRangesAtDocumentPos m editor pos =
     (case m editor of
        None \<Rightarrow> []
      | Some ts \<Rightarrow> filter (\<lambda>t. start t \<le> pos \<and> int pos \<le> end' t) ts)"

text \<open>\<^verbatim>\<open>_markText\<close> (lines 220-230); the editor is given by its document.\<close>

definition markText :: "state \<Rightarrow> document \<Rightarrow> state" where
  "markText st doc =
     (case cachedValues st (fullPath doc) of
        None \<Rightarrow>
          st\<lparr>console := console st @
               [''Couldn't find the tag information for '' @ fullPath doc]\<rparr>
      | Some cache \<Rightarrow>
          st\<lparr>marks := MarkedTextTracker_markText (marks st) (fullPath doc) (cachedTags cache)\<rparr>)"

text \<open>\<^verbatim>\<open>_getTagIDAtDocumentPos\<close> (lines 243-250).\<close>

definition getTagIDAtDocumentPos :: "state \<Rightarrow> document \<Rightarrow> nat \<Rightarrow> int" where
  "getTagIDAtDocumentPos st doc pos =
     (case MarkedTextTracker_getRangesAtDocumentPos (marks st) (fullPath doc) pos of
        [] \<Rightarrow> - 1
      | r # rs \<Rightarrow> int (data r))"

section \<open>Example inputs\<close>

text \<open>An element payload that is not self-closed, and a text payload.\<close>

definition element :: "string \<Rightarrow> bool \<Rightarrow> nat \<Rightarrow> nat \<Rightarrow> payload" where
  "element n c off len =
     \<lparr>nodeType = 1, nodeName = Some n, closed = False, closing = c,
      sourceOffset = off, sourceLength = len\<rparr>"

definition text_node :: "nat \<Rightarrow> nat \<Rightarrow> payload" where
  "text_node off len =
     \<lparr>nodeType = 3, nodeName = None, closed = False, closing = False,
      sourceOffset = off, sourceLength = len\<rparr>"

definition empty_state :: state where
  "empty_state = \<lparr>cachedValues = Map.empty, console = [], marks = Map.empty\<rparr>"

text \<open>The document \<^verbatim>\<open><div><p>text\<close> and the payloads of its two tags.\<close>

definition unclosed_doc :: document where
  "unclosed_doc = \<lparr>fullPath = ''/unclosed.html'', diskTimestamp = 7, getText = ''<div><p>text''\<rparr>"

definition unclosed_nodes :: "payload list" where
  "unclosed_nodes = [element ''DIV'' False 0 5, element ''P'' False 5 3]"

text \<open>The document \<^verbatim>\<open><div><span>x</span></div>\<close> and its payloads.\<close>

definition nested_text :: string where
  "nested_text = ''<div><span>x</span></div>''"

definition nested_nodes :: "payload list" where
  "nested_nodes =
     [element ''DIV'' False 0 5, element ''SPAN'' False 5 6, text_node 11 1,
      element ''SPAN'' True 12 7, element ''DIV'' True 19 6]"

text \<open>The document \<^verbatim>\<open><div></span></div>\<close> and its payloads.\<close>

definition stray_text :: string where
  "stray_text = ''<div></span></div>''"

definition stray_nodes :: "payload list" where
  "stray_nodes = [element ''DIV'' False 0 5, element ''SPAN'' True 5 7, element ''DIV'' True 12 6]"

definition nested_doc :: document where
  "nested_doc = \<lparr>fullPath = ''/nested.html'', diskTimestamp = 1, getText = nested_text\<rparr>"

text \<open>A tokenizer that knows the text of \<open>nested_doc\<close> and finds no node in any other
  text.\<close>

definition nested_tokenizer :: "string \<Rightarrow> payload list" where
  "nested_tokenizer t = (if t = nested_text then nested_nodes else [])"

text \<open>A document without tags.\<close>

definition plain_doc :: document where
  "plain_doc = \<lparr>fullPath = ''/plain.html'', diskTimestamp = 3, getText = ''hello''\<rparr>"

section \<open>Specification-side notions\<close>

text \<open>A node stream in document order with positive source lengths: every payload
  is a non-empty piece of the text, and each one ends before the next one starts.\<close>

definition in_document_order :: "string \<Rightarrow> payload list \<Rightarrow> bool" where
  "in_document_order text ps =
     (sorted_wrt (\<lambda>a b. sourceOffset a + sourceLength a \<le> sourceOffset b) ps
      \<and> list_all (\<lambda>p. 0 < sourceLength p \<and> sourceOffset p + sourceLength p \<le> length text) ps)"

text \<open>The source of an element payload holds the character \<^verbatim>\<open><\<close> and the name.\<close>

definition names_within_tags :: "payload list \<Rightarrow> bool" where
  "names_within_tags ps =
     list_all (\<lambda>p. nodeType p \<noteq> 1 \<or> length (nameOf p) + 1 \<le> sourceLength p) ps"

text \<open>The spans that \<^verbatim>\<open>scanDocument\<close> returns for the document are those of its
  current text: no snapshot is stored under the document's path, or its timestamp
  differs (the scanner runs), or it holds the scan of the current text.\<close>

definition cache_coherent :: "(string \<Rightarrow> payload list) \<Rightarrow> state \<Rightarrow> document \<Rightarrow> bool" where
  "cache_coherent eachNode st doc =
     (case cachedValues st (fullPath doc) of
        None \<Rightarrow> True
      | Some c \<Rightarrow>
          timestamp c \<noteq> diskTimestamp doc
          \<or> cachedTags c = scan (getText doc) (eachNode (getText doc)))"

text \<open>The invariant of the scanner's loop when the payloads up to position \<open>m\<close> of the
  text have been delivered.\<close>

definition scan_inv :: "string \<Rightarrow> nat \<Rightarrow> scan_state \<Rightarrow> bool" where
  "scan_inv text m s =
     (m \<le> length text
      \<and> list_all (\<lambda>t. int (start t) < end' t) (tags s)
      \<and> list_all (\<lambda>e. 0 < sourceLength (node e)
                      \<and> sourceOffset (node e) + sourceLength (node e) \<le> m
                      \<and> (case unclosedLength e of None \<Rightarrow> True | Some u \<Rightarrow> 0 \<le> u))
           (tagStack s)
      \<and> map data (tags s) = [1..<tagID s]
      \<and> 1 \<le> tagID s)"

text \<open>A second invariant of the loop: the starts of the emitted spans and the offsets
  of the open tags lie before position \<open>m\<close> and are pairwise different.\<close>

definition starts_inv :: "nat \<Rightarrow> scan_state \<Rightarrow> bool" where
  "starts_inv m s =
     (list_all (\<lambda>k. k < m) (map start (tags s) @ map sourceOffset (map node (tagStack s)))
      \<and> distinct (map start (tags s) @ map sourceOffset (map node (tagStack s))))"

text \<open>The index at which the attribute of a span is inserted, as the specification
  words it: the start of the span, the length of its name, one, and the total length of
  the attribute strings of the spans handled before it (\<open>earlier\<close>).\<close>

definition insertion_index :: "tag list \<Rightarrow> tag \<Rightarrow> nat" where
  "insertion_index earlier t =
     start t + length (name t) + 1 + sum_list (map (\<lambda>d. length (attrText d)) earlier)"

definition insert_at :: "string \<Rightarrow> nat \<Rightarrow> string \<Rightarrow> string" where
  "insert_at s i a = take i s @ a @ drop i s"

text \<open>The pass over the spans as the specification words it.\<close>

fun instrument_spec :: "string \<Rightarrow> tag list \<Rightarrow> tag list \<Rightarrow> string" where
  "instrument_spec gen earlier [] = gen"
| "instrument_spec gen earlier (t # ts) =
     instrument_spec (insert_at gen (insertion_index earlier t) (attrText t)) (earlier @ [t]) ts"

text \<open>Where the injected attribute strings lie in the rewritten text of a document of
  \<open>n\<close> characters (index and length, in the order of the spans): at the insertion
  index, or at the end of the text when the index lies beyond it. And the deletion of
  such ranges from a text, the last range first.\<close>

fun injected_ranges :: "nat \<Rightarrow> tag list \<Rightarrow> tag list \<Rightarrow> (nat \<times> nat) list" where
  "injected_ranges n earlier [] = []"
| "injected_ranges n earlier (t # ts) =
     (min (insertion_index earlier t) (n + sum_list (map (\<lambda>d. length (attrText d)) earlier)),
      length (attrText t))
     # injected_ranges n (earlier @ [t]) ts"

fun delete_ranges :: "string \<Rightarrow> (nat \<times> nat) list \<Rightarrow> string" where
  "delete_ranges s [] = s"
| "delete_ranges s ((i, n) # rs) =
     (let s' = delete_ranges s rs in take i s' @ drop (i + n) s')"

text \<open>The states of the module that calls of its exported functions can reach from
  the state in which it is loaded.\<close>

inductive reachable :: "(string \<Rightarrow> payload list) \<Rightarrow> state \<Rightarrow> bool"
  for eachNode :: "string \<Rightarrow> payload list" where
  loaded: "reachable eachNode empty_state"
| scanned: "reachable eachNode st \<Longrightarrow> reachable eachNode (snd (scanDocument eachNode st doc))"
| instrumented:
    "reachable eachNode st \<Longrightarrow> reachable eachNode (snd (generateInstrumentedHTML eachNode st doc))"
| marked: "reachable eachNode st \<Longrightarrow> reachable eachNode (markText st doc)"

section \<open>The tag classifier: properties\<close>

lemmas regex_defs = regex_test_def empty_tag_alternatives_def to_lower_def

text \<open>
  C2 (the code departs from the claim). The regular expression of \<^verbatim>\<open>_isEmptyTag\<close> has
  no anchors, so a name that only contains one of the void-element names is classified
  as empty too: \<^verbatim>\<open>TEXTAREA\<close> contains \<^verbatim>\<open>area\<close>. The payload below has a name, is not
  self-closed, its name is none of the sixteen names, and \<^verbatim>\<open>_isEmptyTag\<close> returns true.
\<close>

theorem isEmptyTag_textarea:
  "isEmptyTag (element ''TEXTAREA'' False 0 10) = True
   \<and> closed (element ''TEXTAREA'' False 0 10) = False
   \<and> nodeName (element ''TEXTAREA'' False 0 10) = Some ''TEXTAREA''
   \<and> list_ex (\<lambda>a. a = map to_lower ''TEXTAREA'') empty_tag_alternatives = False"
  by (simp add: isEmptyTag_def element_def regex_defs)

section \<open>The scan cache: properties\<close>

text \<open>
  C3. If \<^verbatim>\<open>_cachedValues\<close> holds a snapshot for the document's path whose timestamp
  equals the document's timestamp, \<^verbatim>\<open>scanDocument\<close> returns the cached tags and leaves
  the state as it is, whatever the tokenizer and the text are (no rescan). If there is
  no snapshot, or its timestamp differs in either direction, the result is the scan of
  the document's text, and the snapshot of that path becomes the document's timestamp
  with the new list.
\<close>

theorem scanDocument_cache:
  "(\<forall>c. cachedValues st (fullPath doc) = Some c \<and> timestamp c = diskTimestamp doc \<longrightarrow>
        scanDocument eachNode st doc = (cachedTags c, st))
   \<and> ((cachedValues st (fullPath doc) = None
        \<or> (\<exists>c. cachedValues st (fullPath doc) = Some c \<and> timestamp c \<noteq> diskTimestamp doc)) \<longrightarrow>
        fst (scanDocument eachNode st doc) = scan (getText doc) (eachNode (getText doc))
        \<and> cachedValues (snd (scanDocument eachNode st doc)) =
            (cachedValues st)(fullPath doc \<mapsto>
               \<lparr>timestamp = diskTimestamp doc,
                cachedTags = scan (getText doc) (eachNode (getText doc))\<rparr>))"
  by (auto simp: scanDocument_def rescan_def Let_def)

theorem scanDocument_cache_witness:
  "scanDocument (\<lambda>t. unclosed_nodes)
      (empty_state\<lparr>cachedValues := [''/unclosed.html'' \<mapsto> \<lparr>timestamp = 7, cachedTags = []\<rparr>]\<rparr>)
      unclosed_doc
    = ([], empty_state\<lparr>cachedValues := [''/unclosed.html'' \<mapsto> \<lparr>timestamp = 7, cachedTags = []\<rparr>]\<rparr>)
   \<and> fst (scanDocument (\<lambda>t. unclosed_nodes)
      (empty_state\<lparr>cachedValues := [''/unclosed.html'' \<mapsto> \<lparr>timestamp = 9, cachedTags = []\<rparr>]\<rparr>)
      unclosed_doc) = scan ''<div><p>text'' unclosed_nodes
   \<and> cachedValues (snd (scanDocument (\<lambda>t. unclosed_nodes)
      (empty_state\<lparr>cachedValues := [''/unclosed.html'' \<mapsto> \<lparr>timestamp = 9, cachedTags = []\<rparr>]\<rparr>)
      unclosed_doc)) ''/unclosed.html''
     = Some \<lparr>timestamp = 7, cachedTags = scan ''<div><p>text'' unclosed_nodes\<rparr>"
  using scanDocument_cache [of
      "empty_state\<lparr>cachedValues := [''/unclosed.html'' \<mapsto> \<lparr>timestamp = 7, cachedTags = []\<rparr>]\<rparr>"
      unclosed_doc "\<lambda>t. unclosed_nodes"]
    scanDocument_cache [of
      "empty_state\<lparr>cachedValues := [''/unclosed.html'' \<mapsto> \<lparr>timestamp = 9, cachedTags = []\<rparr>]\<rparr>"
      unclosed_doc "\<lambda>t. unclosed_nodes"]
  by (simp add: unclosed_doc_def empty_state_def)

section \<open>The scanner: properties\<close>

subsection \<open>Sorting by the comparison function\<close>

lemma insert_by_compare_start: "insert_by compare_start x ys = insort_key start x ys"
  by (induction ys) (auto simp: compare_start_def)

lemma sort_by_compare_start: "sort_by compare_start xs = sort_key start xs"
  by (induction xs) (simp_all add: insert_by_compare_start)

lemma scan_sort_key: "scan text ps = sort_key start (scan_unsorted text ps)"
  by (simp add: scan_def sort_by_compare_start)

subsection \<open>The stack\<close>

lemma map_node_setUnclosedLength [simp]:
  "map node (setUnclosedLength text p st) = map node st"
  by (cases st) auto

lemma findStartTag_Some:
  "findStartTag n st = Some (e, rest) \<Longrightarrow>
     \<exists>upper lower. st = upper @ e # lower \<and> rest = upper @ lower
        \<and> nodeName (node e) = n \<and> (\<forall>a\<in>set upper. nodeName (node a) \<noteq> n)"
proof (induction st arbitrary: rest)
  case Nil
  then show ?case by simp
next
  case (Cons t st)
  show ?case
  proof (cases "nodeName (node t) = n")
    case True
    with Cons.prems have "e = t" "rest = st" by simp_all
    with True show ?thesis by (intro exI [of _ "[]"] exI [of _ st]) simp
  next
    case False
    with Cons.prems obtain r where f: "findStartTag n st = Some (e, r)" and r: "rest = t # r"
      by (auto split: option.splits)
    from Cons.IH [OF f] obtain upper lower where
      "st = upper @ e # lower" "r = upper @ lower" "nodeName (node e) = n"
      "\<forall>a\<in>set upper. nodeName (node a) \<noteq> n" by blast
    with False r show ?thesis
      by (intro exI [of _ "t # upper"] exI [of _ lower]) simp
  qed
qed

lemma findStartTag_None:
  "(findStartTag n st = None) = (\<forall>e\<in>set st. nodeName (node e) \<noteq> n)"
  by (induction st) (auto split: option.splits)

lemma findStartTag_split:
  "nodeName (node e) = n \<Longrightarrow> \<forall>a\<in>set upper. nodeName (node a) \<noteq> n \<Longrightarrow>
   findStartTag n (upper @ e # lower) = Some (e, upper @ lower)"
  by (induction upper) auto

lemma findStartTag_set:
  assumes "findStartTag n st = Some (e, rest)"
  shows "e \<in> set st" and "set rest \<subseteq> set st"
  using findStartTag_Some [OF assms] by auto

subsection \<open>The invariant of the loop\<close>

lemma scan_inv_setUnclosedLength:
  assumes "scan_inv text m s" and "m \<le> sourceOffset p"
  shows "scan_inv text m (s\<lparr>tagStack := setUnclosedLength text p (tagStack s)\<rparr>)"
proof (cases "tagStack s")
  case Nil
  with assms show ?thesis by (simp add: scan_inv_def)
next
  case (Cons t lower)
  with assms show ?thesis by (auto simp: scan_inv_def)
qed

lemma scan_inv_callback:
  assumes inv: "scan_inv text m s"
    and p: "m \<le> sourceOffset p" "0 < sourceLength p"
      "sourceOffset p + sourceLength p \<le> length text"
  shows "scan_inv text (sourceOffset p + sourceLength p) (callback text s p)"
proof -
  let ?m' = "sourceOffset p + sourceLength p"
  let ?s1 = "s\<lparr>tagStack := setUnclosedLength text p (tagStack s)\<rparr>"
  have mono: "scan_inv text ?m' s'" if "scan_inv text m s'" for s'
    using that p by (auto simp: scan_inv_def list_all_iff)
  have s1: "scan_inv text m ?s1"
    by (rule scan_inv_setUnclosedLength [OF inv p(1)])
  have empty: "scan_inv text ?m'
      (?s1\<lparr>tags := tags ?s1 @ [\<lparr>name = nameOf p, data = tagID ?s1, start = sourceOffset p,
            end' = int (sourceOffset p) + int (sourceLength p)\<rparr>], tagID := tagID ?s1 + 1\<rparr>)"
    using mono [OF s1] p by (auto simp: scan_inv_def)
  have push: "scan_inv text ?m' (?s1\<lparr>tagStack := \<lparr>node = p, unclosedLength = None\<rparr> # tagStack ?s1\<rparr>)"
    using mono [OF s1] p by (auto simp: scan_inv_def)
  have err: "scan_inv text ?m' (?s1\<lparr>errors := errors ?s1 @ [msg]\<rparr>)" for msg
    using mono [OF s1] by (auto simp: scan_inv_def)
  have close: "scan_inv text ?m'
      (?s1\<lparr>tagStack := rest, tags := tags ?s1 @ [\<lparr>name = nameOf (node e), data = tagID ?s1,
            start = sourceOffset (node e),
            end' = int (sourceOffset p) + int (sourceLength p)\<rparr>], tagID := tagID ?s1 + 1\<rparr>)"
    if f: "findStartTag (nodeName p) (tagStack ?s1) = Some (e, rest)" for e rest
  proof -
    from findStartTag_set [OF f] have e: "e \<in> set (tagStack ?s1)"
      and r: "set rest \<subseteq> set (tagStack ?s1)" by auto
    from s1 e have "sourceOffset (node e) + sourceLength (node e) \<le> m"
      by (auto simp: scan_inv_def list_all_iff)
    with p have "int (sourceOffset (node e)) < int (sourceOffset p) + int (sourceLength p)"
      by simp
    with mono [OF s1] r show ?thesis
      by (auto simp: scan_inv_def list_all_iff)
  qed
  show ?thesis
    unfolding callback_def Let_def
    using mono [OF inv] empty push err close
    by (auto split: option.splits)
qed

lemma scan_inv_foldl:
  assumes "scan_inv text m s"
    and "sorted_wrt (\<lambda>a b. sourceOffset a + sourceLength a \<le> sourceOffset b) ps"
    and "\<forall>p\<in>set ps. m \<le> sourceOffset p \<and> 0 < sourceLength p
           \<and> sourceOffset p + sourceLength p \<le> length text"
  shows "\<exists>m'. scan_inv text m' (foldl (callback text) s ps)"
  using assms
proof (induction ps arbitrary: m s)
  case Nil
  then show ?case by auto
next
  case (Cons p ps)
  have "scan_inv text (sourceOffset p + sourceLength p) (callback text s p)"
    using Cons.prems by (intro scan_inv_callback) auto
  moreover have "sorted_wrt (\<lambda>a b. sourceOffset a + sourceLength a \<le> sourceOffset b) ps"
    using Cons.prems by simp
  moreover have "\<forall>q\<in>set ps. sourceOffset p + sourceLength p \<le> sourceOffset q \<and> 0 < sourceLength q
           \<and> sourceOffset q + sourceLength q \<le> length text"
    using Cons.prems by simp
  ultimately show ?case
    using Cons.IH by simp
qed

lemma scan_inv_init: "scan_inv text 0 scan_init"
  by (simp add: scan_inv_def scan_init_def)

lemma scan_inv_scan_nodes:
  assumes "in_document_order text ps"
  shows "\<exists>m. scan_inv text m (scan_nodes text ps)"
  unfolding scan_nodes_def
  using assms by (intro scan_inv_foldl [OF scan_inv_init]) (auto simp: in_document_order_def list_all_iff)

lemma data_drain: "map data (drain st i) = [i..<i + length st]"
  by (induction st arbitrary: i) (auto simp: upt_rec)

lemma drain_start_end:
  assumes "list_all (\<lambda>e. 0 < sourceLength (node e)
              \<and> (case unclosedLength e of None \<Rightarrow> True | Some u \<Rightarrow> 0 \<le> u)) st"
  shows "list_all (\<lambda>t. int (start t) < end' t) (drain st i)"
  using assms by (induction st arbitrary: i) (auto split: option.splits)

lemma scan_unsorted_props:
  assumes "in_document_order text ps"
  shows "list_all (\<lambda>t. int (start t) < end' t) (scan_unsorted text ps)"
    and "\<exists>n. map data (scan_unsorted text ps) = [1..<n]"
proof -
  from scan_inv_scan_nodes [OF assms] obtain m where inv: "scan_inv text m (scan_nodes text ps)" ..
  let ?s = "scan_nodes text ps"
  from inv have "list_all (\<lambda>e. 0 < sourceLength (node e)
              \<and> (case unclosedLength e of None \<Rightarrow> True | Some u \<Rightarrow> 0 \<le> u)) (tagStack ?s)"
    by (auto simp: scan_inv_def list_all_iff)
  from drain_start_end [OF this] inv
  show "list_all (\<lambda>t. int (start t) < end' t) (scan_unsorted text ps)"
    by (simp add: scan_unsorted_def Let_def scan_inv_def)
  from inv have "map data (scan_unsorted text ps) = [1..<tagID ?s] @ [tagID ?s..<tagID ?s + length (tagStack ?s)]"
    by (simp add: scan_unsorted_def Let_def scan_inv_def data_drain)
  also have "\<dots> = [1..<tagID ?s + length (tagStack ?s)]"
    using inv by (simp add: scan_inv_def upt_add_eq_append [symmetric] del: upt_add_eq_append)
  finally show "\<exists>n. map data (scan_unsorted text ps) = [1..<n]" ..
qed

lemma distinct_map_insort_key:
  "distinct (map g (insort_key f x xs)) = (g x \<notin> g ` set xs \<and> distinct (map g xs))"
  by (induction xs) (auto simp: set_insort_key)

lemma distinct_map_sort_key: "distinct (map g (sort_key f xs)) = distinct (map g xs)"
  by (induction xs) (auto simp: distinct_map_insort_key)

subsection \<open>No two spans start at the same place\<close>

lemma starts_inv_callback:
  assumes inv: "starts_inv m s" and p: "m \<le> sourceOffset p" "0 < sourceLength p"
  shows "starts_inv (sourceOffset p + sourceLength p) (callback text s p)"
proof -
  let ?m' = "sourceOffset p + sourceLength p"
  let ?s1 = "s\<lparr>tagStack := setUnclosedLength text p (tagStack s)\<rparr>"
  have s1: "starts_inv m ?s1"
    using inv by (simp add: starts_inv_def)
  have mono: "starts_inv ?m' s'" if s': "starts_inv m s'" for s'
  proof -
    have "list_all (\<lambda>k. k < ?m') ks" if "list_all (\<lambda>k. k < m) ks" for ks :: "nat list"
      using that p(1) by (induction ks) auto
    with s' show ?thesis
      unfolding starts_inv_def by blast
  qed
  have fresh: "sourceOffset p \<notin> set (map start (tags ?s1) @ map sourceOffset (map node (tagStack ?s1)))"
  proof
    assume "sourceOffset p \<in> set (map start (tags ?s1) @ map sourceOffset (map node (tagStack ?s1)))"
    moreover from s1
    have "list_all (\<lambda>k. k < m) (map start (tags ?s1) @ map sourceOffset (map node (tagStack ?s1)))"
      unfolding starts_inv_def by blast
    ultimately have "sourceOffset p < m"
      unfolding list_all_iff by blast
    with p(1) show False by simp
  qed
  have empty: "starts_inv ?m'
      (?s1\<lparr>tags := tags ?s1 @ [\<lparr>name = nameOf p, data = tagID ?s1, start = sourceOffset p,
            end' = int (sourceOffset p) + int (sourceLength p)\<rparr>], tagID := tagID ?s1 + 1\<rparr>)"
    using mono [OF s1] fresh p(2) by (auto simp: starts_inv_def)
  have push: "starts_inv ?m' (?s1\<lparr>tagStack := \<lparr>node = p, unclosedLength = None\<rparr> # tagStack ?s1\<rparr>)"
    using mono [OF s1] fresh p(2) by (auto simp: starts_inv_def)
  have err: "starts_inv ?m' (?s1\<lparr>errors := errors ?s1 @ [msg]\<rparr>)" for msg
    using mono [OF s1] by (simp add: starts_inv_def)
  have close: "starts_inv ?m'
      (?s1\<lparr>tagStack := rest, tags := tags ?s1 @ [\<lparr>name = nameOf (node e), data = tagID ?s1,
            start = sourceOffset (node e),
            end' = int (sourceOffset p) + int (sourceLength p)\<rparr>], tagID := tagID ?s1 + 1\<rparr>)"
    if f: "findStartTag (nodeName p) (tagStack ?s1) = Some (e, rest)" for e rest
  proof -
    from findStartTag_Some [OF f] obtain upper lower where
      "tagStack ?s1 = upper @ e # lower" "rest = upper @ lower" by blast
    with mono [OF s1] show ?thesis
      by (auto simp: starts_inv_def)
  qed
  show ?thesis
    unfolding callback_def Let_def
    using mono [OF inv] empty push err close
    by (auto split: option.splits)
qed

lemma starts_inv_foldl:
  assumes "starts_inv m s"
    and "sorted_wrt (\<lambda>a b. sourceOffset a + sourceLength a \<le> sourceOffset b) ps"
    and "\<forall>p\<in>set ps. m \<le> sourceOffset p \<and> 0 < sourceLength p"
  shows "\<exists>m'. starts_inv m' (foldl (callback text) s ps)"
  using assms
proof (induction ps arbitrary: m s)
  case Nil
  then show ?case by auto
next
  case (Cons p ps)
  have "starts_inv (sourceOffset p + sourceLength p) (callback text s p)"
    using Cons.prems by (intro starts_inv_callback) auto
  moreover have "sorted_wrt (\<lambda>a b. sourceOffset a + sourceLength a \<le> sourceOffset b) ps"
    using Cons.prems by simp
  moreover have "\<forall>q\<in>set ps. sourceOffset p + sourceLength p \<le> sourceOffset q \<and> 0 < sourceLength q"
    using Cons.prems by simp
  ultimately show ?case
    using Cons.IH by simp
qed

lemma start_drain: "map start (drain st i) = map sourceOffset (map node st)"
  by (induction st arbitrary: i) auto

lemma scan_starts_distinct:
  assumes "in_document_order text ps"
  shows "distinct (map start (scan_unsorted text ps))"
proof -
  have "starts_inv 0 scan_init"
    by (simp add: starts_inv_def scan_init_def)
  from starts_inv_foldl [OF this, of ps "text"] assms
  obtain m where "starts_inv m (scan_nodes text ps)"
    by (auto simp: in_document_order_def list_all_iff scan_nodes_def)
  then show ?thesis
    by (simp add: scan_unsorted_def Let_def starts_inv_def start_drain)
qed

text \<open>
  C6. For a node stream in document order with positive source lengths, every span of
  the returned list has \<open>start < end\<close>; the list is sorted ascending by \<open>start\<close>, and
  the spans of equal \<open>start\<close> are in the order in which they were emitted (there are
  none: the starts are pairwise different, so every sorting algorithm gives this list);
  the identities of the list are pairwise distinct and positive.
\<close>

theorem scan_spans_invariants:
  assumes "in_document_order text ps"
  shows "(\<forall>t\<in>set (scan text ps). int (start t) < end' t)
       \<and> sorted (map start (scan text ps))
       \<and> (\<forall>k. filter (\<lambda>t. start t = k) (scan text ps)
               = filter (\<lambda>t. start t = k) (scan_unsorted text ps))
       \<and> distinct (map start (scan text ps))
       \<and> distinct (map data (scan text ps))
       \<and> (\<forall>t\<in>set (scan text ps). 0 < data t)"
proof -
  from scan_unsorted_props [OF assms] obtain n where
    se: "list_all (\<lambda>t. int (start t) < end' t) (scan_unsorted text ps)"
    and ids: "map data (scan_unsorted text ps) = [1..<n]" by blast
  have "\<forall>t\<in>set (scan text ps). int (start t) < end' t"
    using se by (simp add: scan_sort_key list_all_iff)
  moreover have "sorted (map start (scan text ps))"
    by (simp add: scan_sort_key)
  moreover have "filter (\<lambda>t. start t = k) (scan text ps)
               = filter (\<lambda>t. start t = k) (scan_unsorted text ps)" for k
    by (simp add: scan_sort_key sort_key_stable)
  moreover have "distinct (map start (scan text ps))"
    using scan_starts_distinct [OF assms] by (simp add: scan_sort_key distinct_map_sort_key)
  moreover have "distinct (map data (scan text ps))"
    using ids by (simp add: scan_sort_key distinct_map_sort_key)
  moreover have "\<forall>t\<in>set (scan text ps). 0 < data t"
  proof
    fix t assume "t \<in> set (scan text ps)"
    then have "data t \<in> set (map data (scan_unsorted text ps))"
      by (simp add: scan_sort_key)
    then show "0 < data t" unfolding ids by simp
  qed
  ultimately show ?thesis by blast
qed

theorem scan_spans_invariants_witness:
  "in_document_order nested_text nested_nodes
   \<and> list_all (\<lambda>t. int (start t) < end' t) (scan nested_text nested_nodes)
   \<and> sorted (map start (scan nested_text nested_nodes))
   \<and> distinct (map start (scan nested_text nested_nodes))
   \<and> distinct (map data (scan nested_text nested_nodes))
   \<and> list_all (\<lambda>t. 0 < data t) (scan nested_text nested_nodes)"
proof -
  have h: "in_document_order nested_text nested_nodes"
    by (simp add: in_document_order_def nested_text_def nested_nodes_def element_def
        text_node_def)
  from scan_spans_invariants [OF h] h show ?thesis
    by (simp add: list_all_iff)
qed

subsection \<open>Closing tags\<close>

lemmas example_defs = element_def text_node_def unclosed_nodes_def unclosed_doc_def
  nested_text_def nested_nodes_def stray_text_def stray_nodes_def
lemmas scan_defs = scan_def scan_unsorted_def scan_nodes_def scan_init_def callback_def
  isEmptyTag_def nameOf_def compare_start_def Let_def

lemma node_setUnclosedLength:
  "e \<in> set (setUnclosedLength text p st) \<Longrightarrow> \<exists>e0\<in>set st. node e = node e0"
  by (cases st) (auto split: if_splits)

lemma setUnclosedLength_append:
  "upper \<noteq> [] \<Longrightarrow> setUnclosedLength text p (upper @ lower) = setUnclosedLength text p upper @ lower"
  by (cases upper) auto

lemma nonempty_callback:
  assumes "\<forall>e\<in>set (tagStack s). \<not> isEmptyTag (node e)"
  shows "\<forall>e\<in>set (tagStack (callback text s p)). \<not> isEmptyTag (node e)"
proof -
  have s1: "\<forall>e\<in>set (setUnclosedLength text p (tagStack s)). \<not> isEmptyTag (node e)"
    using assms node_setUnclosedLength by metis
  have "\<forall>e\<in>set rest. \<not> isEmptyTag (node e)"
    if "findStartTag (nodeName p) (setUnclosedLength text p (tagStack s)) = Some (e', rest)"
    for e' rest
    using findStartTag_set(2) [OF that] s1 by blast
  with s1 assms show ?thesis
    unfolding callback_def Let_def
    by (auto split: option.splits)
qed

lemma nonempty_foldl:
  "\<forall>e\<in>set (tagStack s). \<not> isEmptyTag (node e) \<Longrightarrow>
   \<forall>e\<in>set (tagStack (foldl (callback text) s ps)). \<not> isEmptyTag (node e)"
proof (induction ps arbitrary: s)
  case Nil
  then show ?case by simp
next
  case (Cons p ps)
  from Cons.IH [OF nonempty_callback [OF Cons.prems]] show ?case by simp
qed

lemma nonempty_scan_nodes: "\<forall>e\<in>set (tagStack (scan_nodes text ps)). \<not> isEmptyTag (node e)"
  unfolding scan_nodes_def by (rule nonempty_foldl) (simp add: scan_init_def)

lemma isEmptyTag_same_name:
  "nodeName p = nodeName q \<Longrightarrow> \<not> closed p \<Longrightarrow> \<not> isEmptyTag q \<Longrightarrow> \<not> isEmptyTag p"
  by (auto simp: isEmptyTag_def split: if_splits option.splits)

lemma isEmptyTag_truthy: "\<not> isEmptyTag p \<Longrightarrow> truthy_string (nodeName p)"
  by (auto simp: isEmptyTag_def split: if_splits)

lemma callback_closing_match:
  assumes p: "closing p" "nodeType p = 1" "\<not> isEmptyTag p"
    and st: "tagStack s = upper @ e # lower"
    and e: "nodeName (node e) = nodeName p"
    and up: "\<forall>a\<in>set upper. nodeName (node a) \<noteq> nodeName p"
  shows "callback text s p =
     s\<lparr>tagStack := setUnclosedLength text p upper @ lower,
       tags := tags s @ [\<lparr>name = nameOf (node e), data = tagID s, start = sourceOffset (node e),
                          end' = int (sourceOffset p) + int (sourceLength p)\<rparr>],
       tagID := tagID s + 1\<rparr>"
proof (cases upper)
  case Nil
  then obtain e' where e': "setUnclosedLength text p (tagStack s) = e' # lower" "node e' = node e"
    using st by (cases "truthy_number (unclosedLength e)") auto
  then have "findStartTag (nodeName p) (setUnclosedLength text p (tagStack s)) = Some (e', lower)"
    using e by simp
  with p Nil e' isEmptyTag_truthy [OF p(3)] show ?thesis
    by (simp add: callback_def Let_def)
next
  case (Cons u us)
  have n: "\<forall>a\<in>set (setUnclosedLength text p upper). nodeName (node a) \<noteq> nodeName p"
    using up node_setUnclosedLength by metis
  have "setUnclosedLength text p (upper @ e # lower) = setUnclosedLength text p upper @ e # lower"
    using Cons by (intro setUnclosedLength_append) simp
  then have "setUnclosedLength text p (tagStack s) = setUnclosedLength text p upper @ e # lower"
    using st by simp
  then have "findStartTag (nodeName p) (setUnclosedLength text p (tagStack s))
      = Some (e, setUnclosedLength text p upper @ lower)"
    using findStartTag_split [OF e n] by simp
  with p isEmptyTag_truthy [OF p(3)] show ?thesis
    by (simp add: callback_def Let_def)
qed

text \<open>
  C5. At any point of a scan, a closing element payload (not marked self-closed) whose
  name is on the stack is matched to the entry nearest to the top that has its name:
  that entry is spliced out, the entries above it and below it stay in their order
  (the top one with its \<^verbatim>\<open>unclosedLength\<close> set by lines 100-110), and one span is
  emitted, from the start of the matched entry to the end of the closing tag, with the
  next identity. For \<^verbatim>\<open><div><span>x</span></div>\<close> the scan returns two spans; the span
  of \<^verbatim>\<open>span\<close> has identity 1 and that of \<^verbatim>\<open>div\<close> identity 2, the \<^verbatim>\<open>div\<close> span
  starts first and ends last.
\<close>

theorem closing_tag_matching:
  assumes "closing p" and "nodeType p = 1" and "\<not> closed p"
    and "tagStack (scan_nodes text ps) = upper @ e # lower"
    and "nodeName (node e) = nodeName p"
    and "\<forall>a\<in>set upper. nodeName (node a) \<noteq> nodeName p"
  shows "tagStack (callback text (scan_nodes text ps) p) = setUnclosedLength text p upper @ lower
     \<and> map node (tagStack (callback text (scan_nodes text ps) p)) = map node upper @ map node lower
     \<and> tags (callback text (scan_nodes text ps) p) =
         tags (scan_nodes text ps) @
           [\<lparr>name = nameOf (node e), data = tagID (scan_nodes text ps),
             start = sourceOffset (node e),
             end' = int (sourceOffset p) + int (sourceLength p)\<rparr>]
     \<and> tagID (callback text (scan_nodes text ps) p) = tagID (scan_nodes text ps) + 1
     \<and> scan nested_text nested_nodes =
         [\<lparr>name = ''DIV'', data = 2, start = 0, end' = 25\<rparr>,
          \<lparr>name = ''SPAN'', data = 1, start = 5, end' = 19\<rparr>]"
proof -
  have "\<not> isEmptyTag (node e)"
    using nonempty_scan_nodes [of "text" ps] assms(4) by simp
  then have ne: "\<not> isEmptyTag p"
    using assms(3,5) isEmptyTag_same_name [of p "node e"] by simp
  have ex: "scan nested_text nested_nodes =
         [\<lparr>name = ''DIV'', data = 2, start = 0, end' = 25\<rparr>,
          \<lparr>name = ''SPAN'', data = 1, start = 5, end' = 19\<rparr>]"
    by (simp add: example_defs scan_defs regex_defs)
  show ?thesis
    unfolding callback_closing_match [OF assms(1,2) ne assms(4,5,6)]
    using ex by simp
qed

theorem closing_tag_matching_witness:
  "tagStack (scan_nodes nested_text ([element ''DIV'' False 0 5, element ''SPAN'' False 5 6])) =
      [] @ \<lparr>node = element ''SPAN'' False 5 6, unclosedLength = None\<rparr>
         # [\<lparr>node = element ''DIV'' False 0 5, unclosedLength = Some 5\<rparr>]
   \<and> tagStack (callback nested_text (scan_nodes nested_text ([element ''DIV'' False 0 5, element ''SPAN'' False 5 6]))
        (element ''SPAN'' True 12 7)) = [\<lparr>node = element ''DIV'' False 0 5, unclosedLength = Some 5\<rparr>]
   \<and> tags (callback nested_text (scan_nodes nested_text ([element ''DIV'' False 0 5, element ''SPAN'' False 5 6]))
        (element ''SPAN'' True 12 7)) = [\<lparr>name = ''SPAN'', data = 1, start = 5, end' = 19\<rparr>]"
proof -
  have st: "tagStack (scan_nodes nested_text ([element ''DIV'' False 0 5, element ''SPAN'' False 5 6])) =
      [] @ \<lparr>node = element ''SPAN'' False 5 6, unclosedLength = None\<rparr>
         # [\<lparr>node = element ''DIV'' False 0 5, unclosedLength = Some 5\<rparr>]"
    by (simp add: example_defs scan_defs regex_defs)
  have tg: "tags (scan_nodes nested_text ([element ''DIV'' False 0 5, element ''SPAN'' False 5 6])) = []"
    "tagID (scan_nodes nested_text ([element ''DIV'' False 0 5, element ''SPAN'' False 5 6])) = 1"
    by (simp_all add: example_defs scan_defs regex_defs)
  have p: "closing (element ''SPAN'' True 12 7)" "nodeType (element ''SPAN'' True 12 7) = 1"
    "\<not> closed (element ''SPAN'' True 12 7)"
    by (simp_all add: element_def)
  have e: "nodeName (node \<lparr>node = element ''SPAN'' False 5 6, unclosedLength = None\<rparr>)
      = nodeName (element ''SPAN'' True 12 7)"
    by (simp add: element_def)
  have up: "\<forall>a\<in>set []. nodeName (node a) \<noteq> nodeName (element ''SPAN'' True 12 7)"
    by simp
  from closing_tag_matching [OF p st e up] st tg show ?thesis
    by (simp add: nameOf_def element_def)
qed

text \<open>
  C7, as the code has it. A closing element payload that is not classified as empty and
  whose name is on no entry of the stack emits no span and leaves the identity counter
  alone; the message \<^verbatim>\<open>Unmatched end tag: <name>\<close> is reported; the stack keeps its
  entries in their order, but lines 100-110 have run before the search, so the top entry
  has its \<^verbatim>\<open>unclosedLength\<close> set if it was unset. The scan of \<^verbatim>\<open><div></span></div>\<close>
  returns one span, for \<^verbatim>\<open>div\<close>, from 0 to 18, the length of the text.
\<close>

theorem unmatched_closing_tag:
  assumes "closing p" and "nodeType p = 1" and "\<not> isEmptyTag p"
    and "\<forall>e\<in>set (tagStack s). nodeName (node e) \<noteq> nodeName p"
  shows "tags (callback text s p) = tags s
     \<and> tagID (callback text s p) = tagID s
     \<and> errors (callback text s p) = errors s @ [''Unmatched end tag: '' @ nameOf p]
     \<and> tagStack (callback text s p) = setUnclosedLength text p (tagStack s)
     \<and> map node (tagStack (callback text s p)) = map node (tagStack s)
     \<and> scan stray_text stray_nodes = [\<lparr>name = ''DIV'', data = 1, start = 0, end' = 18\<rparr>]
     \<and> length stray_text = 18"
proof -
  have "\<forall>e\<in>set (setUnclosedLength text p (tagStack s)). nodeName (node e) \<noteq> nodeName p"
    using assms(4) node_setUnclosedLength by metis
  then have f: "findStartTag (nodeName p) (setUnclosedLength text p (tagStack s)) = None"
    by (simp add: findStartTag_None)
  have ex: "scan stray_text stray_nodes = [\<lparr>name = ''DIV'', data = 1, start = 0, end' = 18\<rparr>]"
    by (simp add: example_defs scan_defs regex_defs)
  from assms(1,2,3) isEmptyTag_truthy [OF assms(3)] f ex show ?thesis
    by (simp add: callback_def Let_def stray_text_def)
qed

theorem unmatched_closing_tag_witness:
  "errors (callback stray_text (scan_nodes stray_text ([element ''DIV'' False 0 5])) (element ''SPAN'' True 5 7))
      = [''Unmatched end tag: SPAN'']
   \<and> tags (callback stray_text (scan_nodes stray_text ([element ''DIV'' False 0 5])) (element ''SPAN'' True 5 7)) = []
   \<and> tagStack (callback stray_text (scan_nodes stray_text ([element ''DIV'' False 0 5])) (element ''SPAN'' True 5 7))
      = [\<lparr>node = element ''DIV'' False 0 5, unclosedLength = Some 5\<rparr>]"
proof -
  have s: "scan_nodes stray_text ([element ''DIV'' False 0 5])
     = \<lparr>tags = [], tagStack = [\<lparr>node = element ''DIV'' False 0 5, unclosedLength = None\<rparr>],
        tagID = 1, errors = []\<rparr>"
    by (simp add: example_defs scan_defs regex_defs)
  have p: "closing (element ''SPAN'' True 5 7)" "nodeType (element ''SPAN'' True 5 7) = 1"
    "\<not> isEmptyTag (element ''SPAN'' True 5 7)"
    by (simp_all add: element_def isEmptyTag_def regex_defs)
  have n: "\<forall>e\<in>set (tagStack (scan_nodes stray_text ([element ''DIV'' False 0 5]))).
      nodeName (node e) \<noteq> nodeName (element ''SPAN'' True 5 7)"
    unfolding s by (simp add: element_def)
  from unmatched_closing_tag [OF p n, of stray_text] show ?thesis
    unfolding s by (simp add: nameOf_def element_def)
qed

text \<open>
  C7 as stated fails: the state is not otherwise unchanged. In \<^verbatim>\<open><div>text</span>\<close> the
  stray closing tag sets the \<^verbatim>\<open>unclosedLength\<close> of the open \<^verbatim>\<open>div\<close> to 9, and the span
  of \<^verbatim>\<open>div\<close> then ends at 9; without the closing tag it ends at 5.
\<close>

theorem unmatched_closing_tag_changes_state:
  "tagStack (callback ''<div>text</span>'' (scan_nodes ''<div>text</span>'' [element ''DIV'' False 0 5])
        (element ''SPAN'' True 9 7))
     \<noteq> tagStack (scan_nodes ''<div>text</span>'' [element ''DIV'' False 0 5])
   \<and> tagStack (scan_nodes ''<div>text</span>'' [element ''DIV'' False 0 5])
     = [\<lparr>node = element ''DIV'' False 0 5, unclosedLength = None\<rparr>]
   \<and> tagStack (callback ''<div>text</span>'' (scan_nodes ''<div>text</span>'' [element ''DIV'' False 0 5])
        (element ''SPAN'' True 9 7))
     = [\<lparr>node = element ''DIV'' False 0 5, unclosedLength = Some 9\<rparr>]
   \<and> scan ''<div>text</span>'' [element ''DIV'' False 0 5, element ''SPAN'' True 9 7]
     = [\<lparr>name = ''DIV'', data = 1, start = 0, end' = 9\<rparr>]
   \<and> scan ''<div>text</span>'' [element ''DIV'' False 0 5]
     = [\<lparr>name = ''DIV'', data = 1, start = 0, end' = 5\<rparr>]"
  by (simp add: example_defs scan_defs regex_defs)

subsection \<open>Unclosed tags\<close>




section \<open>Documents without elements\<close>

lemma callback_not_element: "nodeType p \<noteq> 1 \<Longrightarrow> callback text s p = s"
  by (simp add: callback_def)

lemma foldl_callback_no_elements:
  "\<forall>p\<in>set ps. nodeType p \<noteq> 1 \<Longrightarrow> foldl (callback text) s ps = s"
  by (induction ps arbitrary: s) (simp_all add: callback_not_element)

lemma scan_no_elements:
  assumes "\<forall>p\<in>set ps. nodeType p \<noteq> 1"
  shows "scan text ps = []" and "errors (scan_nodes text ps) = []"
  using foldl_callback_no_elements [OF assms, of "text" scan_init]
  by (simp_all add: scan_def scan_unsorted_def scan_nodes_def scan_init_def)

text \<open>The first scan of \<open>nested_doc\<close>, and a later call for the same path and timestamp
  with any text.\<close>

lemma nested_scanned:
  "scanDocument nested_tokenizer empty_state nested_doc =
     ([\<lparr>name = ''DIV'', data = 2, start = 0, end' = 25\<rparr>,
       \<lparr>name = ''SPAN'', data = 1, start = 5, end' = 19\<rparr>],
      empty_state\<lparr>cachedValues := [''/nested.html'' \<mapsto> \<lparr>timestamp = 1, cachedTags =
        [\<lparr>name = ''DIV'', data = 2, start = 0, end' = 25\<rparr>,
         \<lparr>name = ''SPAN'', data = 1, start = 5, end' = 19\<rparr>]\<rparr>]\<rparr>)"
proof -
  have "scan nested_text nested_nodes =
       [\<lparr>name = ''DIV'', data = 2, start = 0, end' = 25\<rparr>,
        \<lparr>name = ''SPAN'', data = 1, start = 5, end' = 19\<rparr>]"
    and "errors (scan_nodes nested_text nested_nodes) = []"
    by (simp_all add: example_defs scan_defs regex_defs)
  then show ?thesis
    by (simp add: scanDocument_def rescan_def empty_state_def nested_doc_def
        nested_tokenizer_def Let_def)
qed

lemma nested_rescanned:
  "fst (scanDocument nested_tokenizer (snd (scanDocument nested_tokenizer empty_state nested_doc))
      (nested_doc\<lparr>getText := s\<rparr>)) =
     [\<lparr>name = ''DIV'', data = 2, start = 0, end' = 25\<rparr>,
      \<lparr>name = ''SPAN'', data = 1, start = 5, end' = 19\<rparr>]"
  unfolding nested_scanned by (simp add: scanDocument_def nested_doc_def)

text \<open>
  C10, as the code has it. If the tokenizer delivers no element payload for the
  document's text and no snapshot with the document's timestamp is stored under its path
  (so that the scanner runs), \<^verbatim>\<open>scanDocument\<close> returns the empty list, reports nothing,
  and afterwards the cache holds the snapshot (timestamp of the document, empty list)
  under the document's path; a later call for that path with the same timestamp returns
  the empty list and leaves the state alone, whatever the text and the tokenizer are
  then: nothing is scanned.
\<close>

theorem scanDocument_no_elements:
  assumes "\<forall>p\<in>set (eachNode (getText doc)). nodeType p \<noteq> 1"
    and "\<forall>c. cachedValues st (fullPath doc) = Some c \<longrightarrow> timestamp c \<noteq> diskTimestamp doc"
  shows "fst (scanDocument eachNode st doc) = []
     \<and> cachedValues (snd (scanDocument eachNode st doc)) (fullPath doc)
         = Some \<lparr>timestamp = diskTimestamp doc, cachedTags = []\<rparr>
     \<and> console (snd (scanDocument eachNode st doc)) = console st
     \<and> (\<forall>doc' eachNode'.
           fullPath doc' = fullPath doc \<and> diskTimestamp doc' = diskTimestamp doc \<longrightarrow>
           scanDocument eachNode' (snd (scanDocument eachNode st doc)) doc'
             = ([], snd (scanDocument eachNode st doc)))"
proof -
  note sc = scan_no_elements [OF assms(1)]
  from assms(2) have "scanDocument eachNode st doc = rescan eachNode st doc"
    by (auto simp: scanDocument_def split: option.splits)
  then show ?thesis
    by (simp add: rescan_def Let_def sc scanDocument_def)
qed

theorem scanDocument_no_elements_witness:
  "scanDocument (\<lambda>t. [text_node 0 5]) empty_state plain_doc
      = ([], empty_state\<lparr>cachedValues := [''/plain.html'' \<mapsto> \<lparr>timestamp = 3, cachedTags = []\<rparr>]\<rparr>)
   \<and> scanDocument (\<lambda>t. unclosed_nodes)
        (snd (scanDocument (\<lambda>t. [text_node 0 5]) empty_state plain_doc))
        (plain_doc\<lparr>getText := ''<div><p>text''\<rparr>)
      = ([], empty_state\<lparr>cachedValues := [''/plain.html'' \<mapsto> \<lparr>timestamp = 3, cachedTags = []\<rparr>]\<rparr>)
   \<and> fst (scanDocument nested_tokenizer
        (snd (scanDocument nested_tokenizer empty_state nested_doc))
        (nested_doc\<lparr>diskTimestamp := 2, getText := ''hello''\<rparr>)) = []"
proof -
  have h1: "\<forall>p\<in>set ((\<lambda>t. [text_node 0 5]) (getText plain_doc)). nodeType p \<noteq> 1"
    by (simp add: text_node_def)
  have h2: "\<forall>c. cachedValues empty_state (fullPath plain_doc) = Some c \<longrightarrow>
      timestamp c \<noteq> diskTimestamp plain_doc"
    by (simp add: empty_state_def)
  have e: "snd (scanDocument (\<lambda>t. [text_node 0 5]) empty_state plain_doc)
     = empty_state\<lparr>cachedValues := [''/plain.html'' \<mapsto> \<lparr>timestamp = 3, cachedTags = []\<rparr>]\<rparr>"
    using scan_no_elements [OF h1, of "getText plain_doc"]
    by (simp add: scanDocument_def rescan_def Let_def empty_state_def plain_doc_def)
  let ?later = "nested_doc\<lparr>diskTimestamp := 2, getText := ''hello''\<rparr>"
  have h3: "\<forall>p\<in>set (nested_tokenizer (getText ?later)). nodeType p \<noteq> 1"
    by (simp add: nested_tokenizer_def nested_text_def)
  have h4: "\<forall>c. cachedValues (snd (scanDocument nested_tokenizer empty_state nested_doc))
        (fullPath ?later) = Some c \<longrightarrow> timestamp c \<noteq> diskTimestamp ?later"
    unfolding nested_scanned by (simp add: nested_doc_def)
  from scanDocument_no_elements [OF h1 h2]
    scanDocument_no_elements [where eachNode = nested_tokenizer and doc = ?later, OF h3 h4] e
  show ?thesis
    by (simp add: plain_doc_def prod_eq_iff)
qed

text \<open>
  C10 as stated fails when a snapshot with the document's timestamp is stored: after the
  scan of \<^verbatim>\<open><div><span>x</span></div>\<close>, the tag-free text \<^verbatim>\<open>hello\<close> under the same
  path and timestamp gets the two cached spans, and the snapshot stays as it is.
\<close>

theorem stale_snapshot_returned:
  "nested_tokenizer ''hello'' = []
   \<and> fst (scanDocument nested_tokenizer
        (snd (scanDocument nested_tokenizer empty_state nested_doc))
        (nested_doc\<lparr>getText := ''hello''\<rparr>))
     = [\<lparr>name = ''DIV'', data = 2, start = 0, end' = 25\<rparr>,
        \<lparr>name = ''SPAN'', data = 1, start = 5, end' = 19\<rparr>]
   \<and> cachedValues (snd (scanDocument nested_tokenizer
        (snd (scanDocument nested_tokenizer empty_state nested_doc))
        (nested_doc\<lparr>getText := ''hello''\<rparr>))) (fullPath nested_doc)
     = Some \<lparr>timestamp = 1, cachedTags =
         [\<lparr>name = ''DIV'', data = 2, start = 0, end' = 25\<rparr>,
          \<lparr>name = ''SPAN'', data = 1, start = 5, end' = 19\<rparr>]\<rparr>"
  unfolding nested_scanned
  by (simp add: scanDocument_def nested_doc_def nested_tokenizer_def nested_text_def)

section \<open>The instrumentation generator: properties\<close>

lemma insertAttr_spec:
  "insertAttr (gen, sum_list (map (\<lambda>d. length (attrText d)) earlier)) t
     = (insert_at gen (insertion_index earlier t) (attrText t),
        sum_list (map (\<lambda>d. length (attrText d)) (earlier @ [t])))"
  by (simp add: insertAttr_def insert_at_def insertion_index_def substr_def substr_from_def Let_def)

lemma foldl_insertAttr_spec:
  "fst (foldl insertAttr (gen, sum_list (map (\<lambda>d. length (attrText d)) earlier)) ts)
     = instrument_spec gen earlier ts"
proof (induction ts arbitrary: gen earlier)
  case Nil
  then show ?case by simp
next
  case (Cons t ts)
  show ?case
    using Cons.IH [of "insert_at gen (insertion_index earlier t) (attrText t)" "earlier @ [t]"]
    by (simp only: foldl_Cons insertAttr_spec instrument_spec.simps)
qed

lemma instrument_spec_eq: "instrument text ts = instrument_spec text [] ts"
  using foldl_insertAttr_spec [of "text" "[]" ts] by (simp add: instrument_def)

lemma generateInstrumentedHTML_eq:
  "generateInstrumentedHTML eachNode st doc =
     (instrument (getText doc) (fst (scanDocument eachNode st doc)), snd (scanDocument eachNode st doc))"
  by (simp add: generateInstrumentedHTML_def split_beta)

lemmas instrument_defs = instrument_def insertAttr_def attrText_def substr_def substr_from_def
  number_to_string.simps Let_def

subsection \<open>Where the spans come from\<close>

lemma origin_callback:
  assumes tg: "\<forall>t\<in>set (tags s). P (start t) (name t)"
    and stk: "\<forall>e\<in>set (tagStack s). P (sourceOffset (node e)) (nameOf (node e))"
    and p: "nodeType p = 1 \<Longrightarrow> P (sourceOffset p) (nameOf p)"
  shows "(\<forall>t\<in>set (tags (callback text s p)). P (start t) (name t))
       \<and> (\<forall>e\<in>set (tagStack (callback text s p)). P (sourceOffset (node e)) (nameOf (node e)))"
proof -
  let ?st1 = "setUnclosedLength text p (tagStack s)"
  have s1: "\<forall>e\<in>set ?st1. P (sourceOffset (node e)) (nameOf (node e))"
    using stk node_setUnclosedLength by metis
  have "P (sourceOffset (node e')) (nameOf (node e'))
      \<and> (\<forall>e\<in>set rest. P (sourceOffset (node e)) (nameOf (node e)))"
    if "findStartTag (nodeName p) ?st1 = Some (e', rest)" for e' rest
    using findStartTag_set [OF that] s1 by blast
  with s1 tg stk p show ?thesis
    unfolding callback_def Let_def
    by (auto split: option.splits)
qed

lemma origin_foldl:
  assumes "\<forall>t\<in>set (tags s). P (start t) (name t)"
    and "\<forall>e\<in>set (tagStack s). P (sourceOffset (node e)) (nameOf (node e))"
    and "\<forall>p\<in>set ps. nodeType p = 1 \<longrightarrow> P (sourceOffset p) (nameOf p)"
  shows "(\<forall>t\<in>set (tags (foldl (callback text) s ps)). P (start t) (name t))
       \<and> (\<forall>e\<in>set (tagStack (foldl (callback text) s ps)).
             P (sourceOffset (node e)) (nameOf (node e)))"
  using assms
proof (induction ps arbitrary: s)
  case Nil
  then show ?case by simp
next
  case (Cons p ps)
  have "(\<forall>t\<in>set (tags (callback text s p)). P (start t) (name t))
       \<and> (\<forall>e\<in>set (tagStack (callback text s p)). P (sourceOffset (node e)) (nameOf (node e)))"
    using Cons.prems by (intro origin_callback) simp_all
  with Cons.IH [of "callback text s p"] Cons.prems(3) show ?case by simp
qed

lemma origin_drain:
  "\<forall>e\<in>set st. P (sourceOffset (node e)) (nameOf (node e)) \<Longrightarrow>
   \<forall>t\<in>set (drain st i). P (start t) (name t)"
  by (induction st arbitrary: i) auto

lemma set_scan: "set (scan text ps) = set (scan_unsorted text ps)"
  by (simp add: scan_sort_key)

lemma origin_scan:
  assumes "\<forall>p\<in>set ps. nodeType p = 1 \<longrightarrow> P (sourceOffset p) (nameOf p)"
  shows "\<forall>t\<in>set (scan text ps). P (start t) (name t)"
proof -
  have "(\<forall>t\<in>set (tags (scan_nodes text ps)). P (start t) (name t))
       \<and> (\<forall>e\<in>set (tagStack (scan_nodes text ps)). P (sourceOffset (node e)) (nameOf (node e)))"
    unfolding scan_nodes_def using assms
    by (intro origin_foldl) (simp_all add: scan_init_def)
  then show ?thesis
    using origin_drain [of "tagStack (scan_nodes text ps)" P "tagID (scan_nodes text ps)"]
    by (auto simp: set_scan scan_unsorted_def Let_def)
qed

lemma sorted_wrt_total:
  "sorted_wrt R xs \<Longrightarrow> x \<in> set xs \<Longrightarrow> y \<in> set xs \<Longrightarrow> x = y \<or> R x y \<or> R y x"
  by (induction xs) auto

lemma name_end_mono:
  assumes ord: "in_document_order text ps" and nm: "names_within_tags ps"
    and p: "p \<in> set ps" "nodeType p = 1" and q: "q \<in> set ps" "nodeType q = 1"
    and le: "sourceOffset p \<le> sourceOffset q"
  shows "sourceOffset p + length (nameOf p) + 1 \<le> sourceOffset q + length (nameOf q) + 1"
proof -
  from ord have srt: "sorted_wrt (\<lambda>a b. sourceOffset a + sourceLength a \<le> sourceOffset b) ps"
    and pos: "0 < sourceLength q"
    using q by (auto simp: in_document_order_def list_all_iff)
  from nm p have fit: "length (nameOf p) + 1 \<le> sourceLength p"
    by (auto simp: names_within_tags_def list_all_iff)
  from sorted_wrt_total [OF srt p(1) q(1)]
  consider "p = q" | "sourceOffset p + sourceLength p \<le> sourceOffset q"
    | "sourceOffset q + sourceLength q \<le> sourceOffset p" by blast
  then show ?thesis
  proof cases
    case 1
    then show ?thesis by simp
  next
    case 2
    with fit show ?thesis by simp
  next
    case 3
    with pos le show ?thesis by simp
  qed
qed

lemma scan_insertion_points:
  assumes ord: "in_document_order text ps" and nm: "names_within_tags ps"
  shows "sorted (map (\<lambda>t. start t + length (name t) + 1) (scan text ps))"
    and "\<forall>t\<in>set (scan text ps). start t + length (name t) + 1 \<le> length text"
proof -
  let ?P = "\<lambda>off n. \<exists>p\<in>set ps. nodeType p = 1 \<and> sourceOffset p = off \<and> nameOf p = n"
  have org: "\<forall>t\<in>set (scan text ps). ?P (start t) (name t)"
    by (rule origin_scan) auto
  show "\<forall>t\<in>set (scan text ps). start t + length (name t) + 1 \<le> length text"
  proof
    fix t assume "t \<in> set (scan text ps)"
    with org obtain p where p: "p \<in> set ps" "nodeType p = 1" "sourceOffset p = start t"
      "nameOf p = name t" by blast
    with ord nm have "length (nameOf p) + 1 \<le> sourceLength p"
      "sourceOffset p + sourceLength p \<le> length text"
      by (auto simp: in_document_order_def names_within_tags_def list_all_iff)
    with p show "start t + length (name t) + 1 \<le> length text" by simp
  qed
  have "sorted_wrt (\<lambda>a b. start a \<le> start b) (scan text ps)"
    using sorted_sort_key [of start "scan_unsorted text ps"]
    by (simp add: scan_sort_key sorted_map)
  moreover have "start a + length (name a) + 1 \<le> start b + length (name b) + 1"
    if "a \<in> set (scan text ps)" "b \<in> set (scan text ps)" "start a \<le> start b" for a b
  proof -
    from org that obtain p q where
      "p \<in> set ps" "nodeType p = 1" "sourceOffset p = start a" "nameOf p = name a"
      "q \<in> set ps" "nodeType q = 1" "sourceOffset q = start b" "nameOf q = name b"
      by blast
    with name_end_mono [OF ord nm, of p q] that(3) show ?thesis by simp
  qed
  ultimately have "sorted_wrt (\<lambda>a b. start a + length (name a) + 1 \<le> start b + length (name b) + 1)
      (scan text ps)"
    by (rule sorted_wrt_mono_rel [rotated])
  then show "sorted (map (\<lambda>t. start t + length (name t) + 1) (scan text ps))"
    by (simp add: sorted_map)
qed

subsection \<open>Insertions at ascending points\<close>

lemma insertAttr_split:
  assumes "length pre = base + c" and "base \<le> start t + length (name t) + 1"
  shows "insertAttr (pre @ rest, c) t =
     ((pre @ take (start t + length (name t) + 1 - base) rest @ attrText t)
        @ drop (start t + length (name t) + 1 - base) rest,
      c + length (attrText t))"
  using assms
  by (simp add: insertAttr_def substr_def substr_from_def Let_def)

lemma cut_out: "take (length x) (x @ a @ r) @ drop (length x + length a) (x @ a @ r) = x @ r"
  by simp

lemma roundtrip_general:
  assumes "length pre = base + c"
    and "base + length rest = n"
    and "c = sum_list (map (\<lambda>d. length (attrText d)) earlier)"
    and "sorted (map (\<lambda>t. start t + length (name t) + 1) ts)"
    and "\<forall>t\<in>set ts. base \<le> start t + length (name t) + 1"
  shows "take (length pre) (fst (foldl insertAttr (pre @ rest, c) ts)) = pre
     \<and> map (\<lambda>(i, k). substr (fst (foldl insertAttr (pre @ rest, c) ts)) i k)
           (injected_ranges n earlier ts) = map attrText ts
     \<and> delete_ranges (fst (foldl insertAttr (pre @ rest, c) ts)) (injected_ranges n earlier ts)
         = pre @ rest"
  using assms
proof (induction ts arbitrary: pre rest base c earlier)
  case Nil
  then show ?case by simp
next
  case (Cons t ts)
  let ?q = "start t + length (name t) + 1"
  let ?d = "?q - base"
  let ?pre' = "pre @ take ?d rest @ attrText t"
  let ?rest' = "drop ?d rest"
  let ?c' = "c + length (attrText t)"
  let ?base' = "base + min ?d (length rest)"
  let ?out = "fst (foldl insertAttr (?pre' @ ?rest', ?c') ts)"
  from Cons.prems have b: "base \<le> ?q" by simp
  have step: "insertAttr (pre @ rest, c) t = (?pre' @ ?rest', ?c')"
    by (rule insertAttr_split [OF Cons.prems(1) b])
  have len: "length ?pre' = ?base' + ?c'"
    using Cons.prems(1) by (simp add: min.commute)
  have n: "?base' + length ?rest' = n"
    using Cons.prems(2) by auto
  have c': "?c' = sum_list (map (\<lambda>d. length (attrText d)) (earlier @ [t]))"
    using Cons.prems(3) by simp
  have srt: "sorted (map (\<lambda>t. start t + length (name t) + 1) ts)"
    using Cons.prems(4) by simp
  have bnd: "\<forall>u\<in>set ts. ?base' \<le> start u + length (name u) + 1"
    using Cons.prems(4) b by auto
  note IH = Cons.IH [OF len n c' srt bnd]
  from IH have pre': "take (length ?pre') ?out = ?pre'" by blast
  then obtain suf where out: "?out = ?pre' @ suf"
    by (metis append_take_drop_id)
  have idx: "min (insertion_index earlier t) (n + sum_list (map (\<lambda>d. length (attrText d)) earlier))
      = length (pre @ take ?d rest)"
    using Cons.prems(1,2,3) b by (auto simp: insertion_index_def min_def)
  have "take (length pre) ?out = pre"
    unfolding out by simp
  moreover have "substr ?out (length (pre @ take ?d rest)) (length (attrText t)) = attrText t"
    unfolding out substr_def by simp
  moreover have "map (\<lambda>(i, k). substr ?out i k) (injected_ranges n (earlier @ [t]) ts) = map attrText ts"
    using IH by blast
  moreover have "take (length (pre @ take ?d rest)) (delete_ranges ?out (injected_ranges n (earlier @ [t]) ts))
      @ drop (length (pre @ take ?d rest) + length (attrText t))
          (delete_ranges ?out (injected_ranges n (earlier @ [t]) ts)) = pre @ rest"
  proof -
    have "delete_ranges ?out (injected_ranges n (earlier @ [t]) ts)
        = (pre @ take ?d rest) @ attrText t @ ?rest'"
      using IH by simp
    then show ?thesis
      by (simp only: cut_out) simp
  qed
  ultimately show ?case
    unfolding foldl_Cons step injected_ranges.simps idx delete_ranges.simps Let_def list.map
    by (simp del: length_append)
qed

lemma instrument_roundtrip:
  assumes "sorted (map (\<lambda>t. start t + length (name t) + 1) ts)"
  shows "map (\<lambda>(i, k). substr (instrument text ts) i k) (injected_ranges (length text) [] ts)
      = map attrText ts"
    and "delete_ranges (instrument text ts) (injected_ranges (length text) [] ts) = text"
  using roundtrip_general [of "[]" 0 0 "text" "length text" "[]" ts] assms
  by (simp_all add: instrument_def)

lemma cached_scans:
  "reachable eachNode st \<Longrightarrow> cachedValues st k = Some c \<Longrightarrow>
   \<exists>text. cachedTags c = scan text (eachNode text)"
proof (induction arbitrary: k c rule: reachable.induct)
  case loaded
  then show ?case by (simp add: empty_state_def)
next
  case (scanned st doc)
  then show ?case
    by (auto simp: scanDocument_def rescan_def Let_def split: option.splits if_splits)
next
  case (instrumented st doc)
  then show ?case
    by (auto simp: generateInstrumentedHTML_eq scanDocument_def rescan_def Let_def
        split: option.splits if_splits)
next
  case (marked st doc)
  then show ?case
    by (auto simp: markText_def split: option.splits)
qed

lemma scanDocument_scan:
  assumes "reachable eachNode st"
  shows "\<exists>text. fst (scanDocument eachNode st doc) = scan text (eachNode text)"
proof (cases "cachedValues st (fullPath doc)")
  case None
  then show ?thesis
    by (auto simp: scanDocument_def rescan_def Let_def)
next
  case (Some c)
  from cached_scans [OF assms Some] show ?thesis
    using Some by (auto simp: scanDocument_def rescan_def Let_def)
qed

text \<open>
  C8. If the tokenizer delivers, for every text, a node stream in document order whose
  element payloads hold their names, then in every state that the exported functions can
  reach and for every document, the text returned by \<^verbatim>\<open>generateInstrumentedHTML\<close>
  holds, at the ranges where the attributes were injected, exactly the attribute strings
  of the spans, and deleting those ranges gives the text of the document back.
\<close>

theorem instrument_strip_roundtrip:
  assumes "\<forall>text. in_document_order text (eachNode text) \<and> names_within_tags (eachNode text)"
    and "reachable eachNode st"
  shows "map (\<lambda>(i, k). substr (fst (generateInstrumentedHTML eachNode st doc)) i k)
           (injected_ranges (length (getText doc)) [] (fst (scanDocument eachNode st doc)))
         = map attrText (fst (scanDocument eachNode st doc))
     \<and> delete_ranges (fst (generateInstrumentedHTML eachNode st doc))
           (injected_ranges (length (getText doc)) [] (fst (scanDocument eachNode st doc)))
         = getText doc"
proof -
  from scanDocument_scan [OF assms(2)] obtain text' where
    ts: "fst (scanDocument eachNode st doc) = scan text' (eachNode text')" ..
  from assms(1) have "in_document_order text' (eachNode text')" "names_within_tags (eachNode text')"
    by simp_all
  from scan_insertion_points(1) [OF this]
  have "sorted (map (\<lambda>t. start t + length (name t) + 1) (fst (scanDocument eachNode st doc)))"
    by (simp add: ts)
  from instrument_roundtrip [OF this] show ?thesis
    by (simp add: generateInstrumentedHTML_eq)
qed

theorem instrument_strip_roundtrip_witness:
  "reachable nested_tokenizer (snd (scanDocument nested_tokenizer empty_state nested_doc))
   \<and> fst (generateInstrumentedHTML nested_tokenizer empty_state nested_doc)
       = ''<div data-brackets-id='2'><span data-brackets-id='1'>x</span></div>''
   \<and> injected_ranges (length (getText nested_doc)) []
        (fst (scanDocument nested_tokenizer empty_state nested_doc))
       = [(4, 21), (31, 21)]
   \<and> delete_ranges (fst (generateInstrumentedHTML nested_tokenizer empty_state nested_doc))
        (injected_ranges (length (getText nested_doc)) []
           (fst (scanDocument nested_tokenizer empty_state nested_doc)))
       = ''<div><span>x</span></div>''
   \<and> fst (generateInstrumentedHTML nested_tokenizer
          (snd (scanDocument nested_tokenizer empty_state nested_doc))
          (nested_doc\<lparr>getText := ''<div>''\<rparr>))
       = ''<div data-brackets-id='2'> data-brackets-id='1'' @ [CHR 0x27]
   \<and> delete_ranges
        (fst (generateInstrumentedHTML nested_tokenizer
          (snd (scanDocument nested_tokenizer empty_state nested_doc))
          (nested_doc\<lparr>getText := ''<div>''\<rparr>)))
        (injected_ranges (length ''<div>'') []
           (fst (scanDocument nested_tokenizer
              (snd (scanDocument nested_tokenizer empty_state nested_doc))
              (nested_doc\<lparr>getText := ''<div>''\<rparr>))))
       = ''<div>''"
proof -
  let ?st = "snd (scanDocument nested_tokenizer empty_state nested_doc)"
  let ?stale = "nested_doc\<lparr>getText := ''<div>''\<rparr>"
  have h1: "\<forall>text. in_document_order text (nested_tokenizer text)
      \<and> names_within_tags (nested_tokenizer text)"
    by (simp add: nested_tokenizer_def in_document_order_def names_within_tags_def nameOf_def
        example_defs)
  have h2: "reachable nested_tokenizer empty_state"
    by (rule loaded)
  have h3: "reachable nested_tokenizer ?st"
    by (rule scanned [OF loaded])
  have sc: "scanDocument nested_tokenizer empty_state nested_doc =
     ([\<lparr>name = ''DIV'', data = 2, start = 0, end' = 25\<rparr>,
       \<lparr>name = ''SPAN'', data = 1, start = 5, end' = 19\<rparr>],
      empty_state\<lparr>cachedValues := [''/nested.html'' \<mapsto> \<lparr>timestamp = 1, cachedTags =
        [\<lparr>name = ''DIV'', data = 2, start = 0, end' = 25\<rparr>,
         \<lparr>name = ''SPAN'', data = 1, start = 5, end' = 19\<rparr>]\<rparr>]\<rparr>)"
  proof -
    have "scan nested_text nested_nodes =
       [\<lparr>name = ''DIV'', data = 2, start = 0, end' = 25\<rparr>,
        \<lparr>name = ''SPAN'', data = 1, start = 5, end' = 19\<rparr>]"
      and "errors (scan_nodes nested_text nested_nodes) = []"
      by (simp_all add: example_defs scan_defs regex_defs)
    then show ?thesis
      by (simp add: scanDocument_def rescan_def empty_state_def nested_doc_def
          nested_tokenizer_def Let_def)
  qed
  have sc2: "fst (scanDocument nested_tokenizer ?st ?stale) =
       [\<lparr>name = ''DIV'', data = 2, start = 0, end' = 25\<rparr>,
        \<lparr>name = ''SPAN'', data = 1, start = 5, end' = 19\<rparr>]"
    unfolding sc by (simp add: scanDocument_def nested_doc_def)
  have out: "fst (generateInstrumentedHTML nested_tokenizer empty_state nested_doc)
       = ''<div data-brackets-id='2'><span data-brackets-id='1'>x</span></div>''"
    unfolding generateInstrumentedHTML_eq sc
    by (simp add: nested_doc_def nested_text_def instrument_defs)
  have out2: "fst (generateInstrumentedHTML nested_tokenizer ?st ?stale)
       = ''<div data-brackets-id='2'> data-brackets-id='1'' @ [CHR 0x27]"
    unfolding generateInstrumentedHTML_eq sc2
    by (simp add: instrument_defs)
  have rg: "injected_ranges (length (getText nested_doc)) []
        (fst (scanDocument nested_tokenizer empty_state nested_doc)) = [(4, 21), (31, 21)]"
    unfolding sc
    by (simp add: insertion_index_def attrText_def number_to_string.simps nested_doc_def
        nested_text_def)
  from instrument_strip_roundtrip [OF h1 h2, of nested_doc]
    instrument_strip_roundtrip [OF h1 h3, of ?stale] h3 out out2 rg
  show ?thesis
    by (simp add: nested_doc_def nested_text_def)
qed

section \<open>Each attribute follows the name of its tag\<close>

lemma sorted_points:
  assumes "sorted_wrt (\<lambda>a b. start a + length (name a) + 1 \<le> start b) ts"
  shows "sorted (map (\<lambda>t. start t + length (name t) + 1) ts)"
proof -
  have "sorted_wrt (\<lambda>a b. start a + length (name a) + 1 \<le> start b + length (name b) + 1) ts"
    using assms by (rule sorted_wrt_mono_rel [rotated]) simp
  then show ?thesis by (simp add: sorted_map)
qed

lemma inserted_after_name_general:
  assumes "length pre = base + c"
    and "c = sum_list (map (\<lambda>d. length (attrText d)) earlier)"
    and "sorted_wrt (\<lambda>a b. start a + length (name a) + 1 \<le> start b) ts"
    and "\<forall>t\<in>set ts. base \<le> start t \<and> start t + length (name t) + 1 \<le> base + length rest"
    and "k < length ts"
  shows "insertion_index (earlier @ take k ts) (ts ! k)
           \<le> base + length rest + sum_list (map (\<lambda>d. length (attrText d)) (earlier @ take k ts))
     \<and> substr (fst (foldl insertAttr (pre @ rest, c) ts))
           (insertion_index (earlier @ take k ts) (ts ! k)) (length (attrText (ts ! k)))
         = attrText (ts ! k)
     \<and> substr (fst (foldl insertAttr (pre @ rest, c) ts))
           (insertion_index (earlier @ take k ts) (ts ! k) - (length (name (ts ! k)) + 1))
           (length (name (ts ! k)) + 1)
         = substr rest (start (ts ! k) - base) (length (name (ts ! k)) + 1)"
  using assms
proof (induction ts arbitrary: pre rest base c earlier k)
  case Nil
  then show ?case by simp
next
  case (Cons t ts)
  let ?q = "start t + length (name t) + 1"
  let ?d = "?q - base"
  let ?pre' = "pre @ take ?d rest @ attrText t"
  let ?rest' = "drop ?d rest"
  let ?c' = "c + length (attrText t)"
  let ?out = "fst (foldl insertAttr (?pre' @ ?rest', ?c') ts)"
  from Cons.prems(4) have b: "base \<le> start t" "?q \<le> base + length rest" by simp_all
  then have b': "base \<le> ?q" by simp
  have step: "insertAttr (pre @ rest, c) t = (?pre' @ ?rest', ?c')"
    by (rule insertAttr_split [OF Cons.prems(1) b'])
  have dl: "?d \<le> length rest" using b by simp
  have len: "length ?pre' = ?q + ?c'"
    using Cons.prems(1) b dl by simp
  have c': "?c' = sum_list (map (\<lambda>d. length (attrText d)) (earlier @ [t]))"
    using Cons.prems(2) by simp
  have srt: "sorted_wrt (\<lambda>a b. start a + length (name a) + 1 \<le> start b) ts"
    using Cons.prems(3) by simp
  have bnd: "\<forall>u\<in>set ts. ?q \<le> start u \<and> start u + length (name u) + 1 \<le> ?q + length ?rest'"
    using Cons.prems(3,4) b by auto
  show ?case
  proof (cases k)
    case 0
    have "take (length ?pre') ?out = ?pre'"
    proof -
      have "\<forall>u\<in>set ts. ?q \<le> start u + length (name u) + 1"
        using bnd by auto
      from roundtrip_general [OF len refl c' sorted_points [OF srt] this]
      show ?thesis by blast
    qed
    then obtain suf where out: "?out = ?pre' @ suf"
      by (metis append_take_drop_id)
    have idx: "insertion_index earlier t = length (pre @ take ?d rest)"
      using Cons.prems(1,2) b dl by (simp add: insertion_index_def)
    have tok: "insertion_index earlier t - (length (name t) + 1) = length pre + (start t - base)"
      using Cons.prems(1,2) b by (simp add: insertion_index_def)
    have "substr ?out (insertion_index earlier t) (length (attrText t)) = attrText t"
      unfolding out idx substr_def by simp
    moreover have "substr ?out (insertion_index earlier t - (length (name t) + 1))
        (length (name t) + 1) = substr rest (start t - base) (length (name t) + 1)"
    proof -
      have "start t - base + (length (name t) + 1) = ?d"
        using b by simp
      then have "take (length (name t) + 1) (drop (start t - base) (take ?d rest))
          = take (length (name t) + 1) (drop (start t - base) rest)"
        by (metis take_drop take_take min.idem add.commute)
      moreover have "length (drop (start t - base) (take ?d rest)) = length (name t) + 1"
        using b dl by simp
      ultimately show ?thesis
        unfolding out tok substr_def by simp
    qed
    moreover have "insertion_index earlier t
        \<le> base + length rest + sum_list (map (\<lambda>d. length (attrText d)) earlier)"
      using b by (simp add: insertion_index_def)
    ultimately show ?thesis
      unfolding foldl_Cons step using 0 by simp
  next
    case (Suc j)
    with Cons.prems(5) have j: "j < length ts" by simp
    note IH = Cons.IH [OF len c' srt bnd j]
    have u: "?q \<le> start (ts ! j)" using bnd j by simp
    have tok: "substr rest (start (ts ! j) - base) (length (name (ts ! j)) + 1)
        = substr ?rest' (start (ts ! j) - ?q) (length (name (ts ! j)) + 1)"
    proof -
      have "start (ts ! j) - ?q + ?d = start (ts ! j) - base"
        using u b' by simp
      then show ?thesis
        by (simp add: substr_def add.commute)
    qed
    have e: "base + length rest = ?q + length ?rest'"
      using b dl by simp
    have l: "earlier @ take (Suc j) (t # ts) = (earlier @ [t]) @ take j ts"
      by simp
    show ?thesis
      unfolding Suc foldl_Cons step nth_Cons_Suc l e tok
      by (rule IH)
  qed
qed

lemma name_end_before:
  assumes ord: "in_document_order text ps" and nm: "names_within_tags ps"
    and p: "p \<in> set ps" "nodeType p = 1" and q: "q \<in> set ps"
    and lt: "sourceOffset p < sourceOffset q"
  shows "sourceOffset p + length (nameOf p) + 1 \<le> sourceOffset q"
proof -
  from ord have srt: "sorted_wrt (\<lambda>a b. sourceOffset a + sourceLength a \<le> sourceOffset b) ps"
    by (simp add: in_document_order_def)
  from nm p have fit: "length (nameOf p) + 1 \<le> sourceLength p"
    by (auto simp: names_within_tags_def list_all_iff)
  from sorted_wrt_total [OF srt p(1) q(1)] lt
  have "sourceOffset p + sourceLength p \<le> sourceOffset q" by auto
  with fit show ?thesis by simp
qed

lemma scan_points_before_starts:
  assumes ord: "in_document_order text ps" and nm: "names_within_tags ps"
  shows "sorted_wrt (\<lambda>a b. start a + length (name a) + 1 \<le> start b) (scan text ps)"
proof -
  let ?P = "\<lambda>off n. \<exists>p\<in>set ps. nodeType p = 1 \<and> sourceOffset p = off \<and> nameOf p = n"
  have org: "\<forall>t\<in>set (scan text ps). ?P (start t) (name t)"
    by (rule origin_scan) auto
  have "sorted (map start (scan text ps))"
    by (simp add: scan_sort_key)
  moreover have "distinct (map start (scan text ps))"
    using scan_starts_distinct [OF ord] by (simp add: scan_sort_key distinct_map_sort_key)
  ultimately have "sorted_wrt (<) (map start (scan text ps))"
    by (simp add: strict_sorted_iff)
  then have "sorted_wrt (\<lambda>a b. start a < start b) (scan text ps)"
    by (simp add: sorted_wrt_map)
  moreover have "start a + length (name a) + 1 \<le> start b"
    if "a \<in> set (scan text ps)" "b \<in> set (scan text ps)" "start a < start b" for a b
  proof -
    from org that obtain p q where
      "p \<in> set ps" "nodeType p = 1" "sourceOffset p = start a" "nameOf p = name a"
      "q \<in> set ps" "sourceOffset q = start b"
      by blast
    with name_end_before [OF ord nm, of p q] that(3) show ?thesis by simp
  qed
  ultimately show ?thesis
    by (rule sorted_wrt_mono_rel [rotated])
qed

text \<open>
  C1, as the code has it. For a document whose spans are the scan of its current text
  (the scanner runs, or the snapshot with the document's timestamp was taken of this
  text), with a node stream in document order that has the names inside the tags:
  \<^verbatim>\<open>generateInstrumentedHTML\<close> takes the spans in the order in which \<^verbatim>\<open>scanDocument\<close>
  returns them and, for each span, inserts the string \<^verbatim>\<open> data-brackets-id='<identity>'\<close>
  (a leading space, that attribute name, single quotes, the identity in decimal) into
  the text at the index: start of the span, plus the length of its name, plus one, plus
  the total length of the attribute strings inserted before; it returns the rewritten
  text. That index lies within the text, the attribute string stands at that index in
  the returned text, and right before it stand the first characters of the tag's
  source, as many as the character \<^verbatim>\<open><\<close> and the name.
\<close>

theorem generateInstrumentedHTML_inserts:
  assumes "in_document_order (getText doc) (eachNode (getText doc))"
    and "names_within_tags (eachNode (getText doc))"
    and "cache_coherent eachNode st doc"
  shows "fst (generateInstrumentedHTML eachNode st doc)
       = instrument_spec (getText doc) [] (fst (scanDocument eachNode st doc))
     \<and> snd (generateInstrumentedHTML eachNode st doc) = snd (scanDocument eachNode st doc)
     \<and> attrText t = '' data-brackets-id='' @ [CHR 0x27] @ number_to_string (data t) @ [CHR 0x27]
     \<and> (\<forall>k<length (fst (scanDocument eachNode st doc)).
           insertion_index (take k (fst (scanDocument eachNode st doc)))
               (fst (scanDocument eachNode st doc) ! k)
             \<le> length (getText doc)
                + sum_list (map (\<lambda>d. length (attrText d)) (take k (fst (scanDocument eachNode st doc))))
         \<and> substr (fst (generateInstrumentedHTML eachNode st doc))
               (insertion_index (take k (fst (scanDocument eachNode st doc)))
                  (fst (scanDocument eachNode st doc) ! k))
               (length (attrText (fst (scanDocument eachNode st doc) ! k)))
             = attrText (fst (scanDocument eachNode st doc) ! k)
         \<and> substr (fst (generateInstrumentedHTML eachNode st doc))
               (insertion_index (take k (fst (scanDocument eachNode st doc)))
                  (fst (scanDocument eachNode st doc) ! k)
                - (length (name (fst (scanDocument eachNode st doc) ! k)) + 1))
               (length (name (fst (scanDocument eachNode st doc) ! k)) + 1)
             = substr (getText doc) (start (fst (scanDocument eachNode st doc) ! k))
                 (length (name (fst (scanDocument eachNode st doc) ! k)) + 1))"
proof -
  let ?ts = "fst (scanDocument eachNode st doc)"
  have ts: "?ts = scan (getText doc) (eachNode (getText doc))"
    using assms(3)
    by (auto simp: cache_coherent_def scanDocument_def rescan_def Let_def split: option.splits)
  have srt: "sorted_wrt (\<lambda>a b. start a + length (name a) + 1 \<le> start b) ?ts"
    unfolding ts by (rule scan_points_before_starts [OF assms(1,2)])
  have bnd: "\<forall>t\<in>set ?ts. 0 \<le> start t \<and> start t + length (name t) + 1 \<le> 0 + length (getText doc)"
    unfolding ts using scan_insertion_points(2) [OF assms(1,2)] by simp
  have gen: "fst (generateInstrumentedHTML eachNode st doc)
      = fst (foldl insertAttr ([] @ getText doc, 0) ?ts)"
    by (simp add: generateInstrumentedHTML_eq instrument_def)
  have "\<forall>k<length ?ts.
           insertion_index (take k ?ts) (?ts ! k)
             \<le> length (getText doc) + sum_list (map (\<lambda>d. length (attrText d)) (take k ?ts))
         \<and> substr (fst (generateInstrumentedHTML eachNode st doc))
               (insertion_index (take k ?ts) (?ts ! k)) (length (attrText (?ts ! k)))
             = attrText (?ts ! k)
         \<and> substr (fst (generateInstrumentedHTML eachNode st doc))
               (insertion_index (take k ?ts) (?ts ! k) - (length (name (?ts ! k)) + 1))
               (length (name (?ts ! k)) + 1)
             = substr (getText doc) (start (?ts ! k)) (length (name (?ts ! k)) + 1)"
  proof (intro allI impI)
    fix k assume k: "k < length ?ts"
    from inserted_after_name_general [of "[]" 0 0 "[]" ?ts "getText doc" k, OF _ _ srt bnd k]
    show "insertion_index (take k ?ts) (?ts ! k)
             \<le> length (getText doc) + sum_list (map (\<lambda>d. length (attrText d)) (take k ?ts))
         \<and> substr (fst (generateInstrumentedHTML eachNode st doc))
               (insertion_index (take k ?ts) (?ts ! k)) (length (attrText (?ts ! k)))
             = attrText (?ts ! k)
         \<and> substr (fst (generateInstrumentedHTML eachNode st doc))
               (insertion_index (take k ?ts) (?ts ! k) - (length (name (?ts ! k)) + 1))
               (length (name (?ts ! k)) + 1)
             = substr (getText doc) (start (?ts ! k)) (length (name (?ts ! k)) + 1)"
      unfolding gen by simp
  qed
  then show ?thesis
    by (simp add: generateInstrumentedHTML_eq instrument_spec_eq attrText_def)
qed

theorem generateInstrumentedHTML_inserts_witness:
  "cachedValues empty_state (fullPath nested_doc) = None
   \<and> fst (generateInstrumentedHTML nested_tokenizer empty_state nested_doc)
       = ''<div data-brackets-id='2'><span data-brackets-id='1'>x</span></div>''
   \<and> substr (fst (generateInstrumentedHTML nested_tokenizer empty_state nested_doc)) 0 4
       = ''<div''
   \<and> substr (fst (generateInstrumentedHTML nested_tokenizer empty_state nested_doc)) 4 21
       = '' data-brackets-id='2'' @ [CHR 0x27]
   \<and> cachedValues (snd (scanDocument nested_tokenizer empty_state nested_doc))
        (fullPath nested_doc)
       = Some \<lparr>timestamp = 1, cachedTags =
           [\<lparr>name = ''DIV'', data = 2, start = 0, end' = 25\<rparr>,
            \<lparr>name = ''SPAN'', data = 1, start = 5, end' = 19\<rparr>]\<rparr>
   \<and> substr (fst (generateInstrumentedHTML nested_tokenizer
          (snd (scanDocument nested_tokenizer empty_state nested_doc)) nested_doc)) 26 5
       = ''<span''
   \<and> substr (fst (generateInstrumentedHTML nested_tokenizer
          (snd (scanDocument nested_tokenizer empty_state nested_doc)) nested_doc)) 31 21
       = '' data-brackets-id='1'' @ [CHR 0x27]"
proof -
  let ?st = "snd (scanDocument nested_tokenizer empty_state nested_doc)"
  have h1: "in_document_order (getText nested_doc) (nested_tokenizer (getText nested_doc))"
    by (simp add: nested_tokenizer_def in_document_order_def nested_doc_def example_defs)
  have h2: "names_within_tags (nested_tokenizer (getText nested_doc))"
    by (simp add: nested_tokenizer_def names_within_tags_def nameOf_def nested_doc_def
        example_defs)
  have sc: "scan (getText nested_doc) (nested_tokenizer (getText nested_doc)) =
       [\<lparr>name = ''DIV'', data = 2, start = 0, end' = 25\<rparr>,
        \<lparr>name = ''SPAN'', data = 1, start = 5, end' = 19\<rparr>]"
    by (simp add: nested_tokenizer_def nested_doc_def example_defs scan_defs regex_defs)
  have h3: "cache_coherent nested_tokenizer empty_state nested_doc"
    by (simp add: cache_coherent_def empty_state_def)
  have h4: "cache_coherent nested_tokenizer ?st nested_doc"
    unfolding nested_scanned cache_coherent_def sc
    by (simp add: nested_doc_def empty_state_def)
  have ts: "fst (scanDocument nested_tokenizer empty_state nested_doc) =
       [\<lparr>name = ''DIV'', data = 2, start = 0, end' = 25\<rparr>,
        \<lparr>name = ''SPAN'', data = 1, start = 5, end' = 19\<rparr>]"
    by (simp add: nested_scanned)
  have ts': "fst (scanDocument nested_tokenizer ?st nested_doc) =
       [\<lparr>name = ''DIV'', data = 2, start = 0, end' = 25\<rparr>,
        \<lparr>name = ''SPAN'', data = 1, start = 5, end' = 19\<rparr>]"
    using nested_rescanned [of "getText nested_doc"] by simp
  have out: "fst (generateInstrumentedHTML nested_tokenizer empty_state nested_doc)
       = ''<div data-brackets-id='2'><span data-brackets-id='1'>x</span></div>''"
    unfolding generateInstrumentedHTML_eq ts
    by (simp add: nested_doc_def nested_text_def instrument_defs)
  note A = generateInstrumentedHTML_inserts [OF h1 h2 h3, THEN conjunct2, THEN conjunct2,
      THEN conjunct2, rule_format, where k = 0, unfolded ts]
  note B = generateInstrumentedHTML_inserts [OF h1 h2 h4, THEN conjunct2, THEN conjunct2,
      THEN conjunct2, rule_format, where k = 1, unfolded ts']
  from A
  have "substr (fst (generateInstrumentedHTML nested_tokenizer empty_state nested_doc)) 4 21
       = '' data-brackets-id='2'' @ [CHR 0x27]
     \<and> substr (fst (generateInstrumentedHTML nested_tokenizer empty_state nested_doc)) 0 4
       = ''<div''"
    by (simp add: insertion_index_def attrText_def number_to_string.simps substr_def
        nested_doc_def nested_text_def eval_nat_numeral)
  moreover from B
  have "substr (fst (generateInstrumentedHTML nested_tokenizer ?st nested_doc)) 31 21
       = '' data-brackets-id='1'' @ [CHR 0x27]
     \<and> substr (fst (generateInstrumentedHTML nested_tokenizer ?st nested_doc)) 26 5
       = ''<span''"
    by (simp add: insertion_index_def attrText_def number_to_string.simps substr_def
        nested_doc_def nested_text_def eval_nat_numeral)
  moreover have "cachedValues empty_state (fullPath nested_doc) = None"
    by (simp add: empty_state_def)
  moreover have "cachedValues ?st (fullPath nested_doc)
       = Some \<lparr>timestamp = 1, cachedTags =
           [\<lparr>name = ''DIV'', data = 2, start = 0, end' = 25\<rparr>,
            \<lparr>name = ''SPAN'', data = 1, start = 5, end' = 19\<rparr>]\<rparr>"
    unfolding nested_scanned by (simp add: nested_doc_def)
  ultimately show ?thesis
    using out by blast
qed

text \<open>
  C1 as stated fails for a document whose text changed while its timestamp did not: the
  spans of the snapshot are used as they are. After the scan of
  \<^verbatim>\<open><div><span>x</span></div>\<close>, with the text \<^verbatim>\<open><div>\<close> the index of the second
  attribute is 31 in a text of 26 characters and the string is appended at 26; with the
  text \<^verbatim>\<open>hello <b>big</b> world!!!\<close> both attributes land in plain text.
\<close>

theorem stale_spans_inserted_elsewhere:
  "fst (scanDocument nested_tokenizer (snd (scanDocument nested_tokenizer empty_state nested_doc))
      (nested_doc\<lparr>getText := ''<div>''\<rparr>))
     = [\<lparr>name = ''DIV'', data = 2, start = 0, end' = 25\<rparr>,
        \<lparr>name = ''SPAN'', data = 1, start = 5, end' = 19\<rparr>]
   \<and> insertion_index [\<lparr>name = ''DIV'', data = 2, start = 0, end' = 25\<rparr>]
        \<lparr>name = ''SPAN'', data = 1, start = 5, end' = 19\<rparr> = 31
   \<and> fst (generateInstrumentedHTML nested_tokenizer
        (snd (scanDocument nested_tokenizer empty_state nested_doc))
        (nested_doc\<lparr>getText := ''<div>''\<rparr>))
     = ''<div data-brackets-id='2'> data-brackets-id='1'' @ [CHR 0x27]
   \<and> substr (fst (generateInstrumentedHTML nested_tokenizer
        (snd (scanDocument nested_tokenizer empty_state nested_doc))
        (nested_doc\<lparr>getText := ''<div>''\<rparr>))) 31 21
     \<noteq> attrText \<lparr>name = ''SPAN'', data = 1, start = 5, end' = 19\<rparr>
   \<and> fst (generateInstrumentedHTML nested_tokenizer
        (snd (scanDocument nested_tokenizer empty_state nested_doc))
        (nested_doc\<lparr>getText := ''hello <b>big</b> world!!!''\<rparr>))
     = ''hell data-brackets-id='2'o <b>b data-brackets-id='1'ig</b> world!!!''"
  unfolding generateInstrumentedHTML_eq nested_rescanned
  by (simp add: instrument_defs insertion_index_def)

section \<open>Calls without a prior scan\<close>

lemma marks_need_cache:
  "reachable eachNode st \<Longrightarrow> cachedValues st k = None \<Longrightarrow> marks st k = None"
proof (induction arbitrary: k rule: reachable.induct)
  case loaded
  then show ?case by (simp add: empty_state_def)
next
  case (scanned st doc)
  then show ?case
    by (auto simp: scanDocument_def rescan_def Let_def split: option.splits if_splits)
next
  case (instrumented st doc)
  then show ?case
    by (auto simp: generateInstrumentedHTML_eq scanDocument_def rescan_def Let_def
        split: option.splits if_splits)
next
  case (marked st doc)
  then show ?case
    by (auto simp: markText_def MarkedTextTracker_markText_def split: option.splits if_splits)
qed

text \<open>
  C9, as the code has it. In a state that the exported functions can reach and in which
  the cache holds no snapshot for the document: \<^verbatim>\<open>_markText\<close> reports an error and
  seeds nothing; \<^verbatim>\<open>_getTagIDAtDocumentPos\<close> returns -1; \<^verbatim>\<open>generateInstrumentedHTML\<close>
  needs no prior scan, since it calls \<^verbatim>\<open>scanDocument\<close> itself: it returns the
  instrumented text of the scan, the same text as after a prior \<^verbatim>\<open>scanDocument\<close>. After
  either of the two, \<^verbatim>\<open>_markText\<close> seeds the tracker with the scanned spans.
\<close>

theorem prior_scan_requirement:
  assumes "reachable eachNode st" and "cachedValues st (fullPath doc) = None"
  shows "markText st doc =
       st\<lparr>console := console st @ [''Couldn't find the tag information for '' @ fullPath doc]\<rparr>
     \<and> getTagIDAtDocumentPos st doc pos = - 1
     \<and> fst (generateInstrumentedHTML eachNode st doc)
         = instrument (getText doc) (scan (getText doc) (eachNode (getText doc)))
     \<and> fst (generateInstrumentedHTML eachNode (snd (scanDocument eachNode st doc)) doc)
         = fst (generateInstrumentedHTML eachNode st doc)
     \<and> marks (markText (snd (scanDocument eachNode st doc)) doc) (fullPath doc)
         = Some (scan (getText doc) (eachNode (getText doc)))
     \<and> marks (markText (snd (generateInstrumentedHTML eachNode st doc)) doc) (fullPath doc)
         = Some (scan (getText doc) (eachNode (getText doc)))"
proof -
  from marks_need_cache [OF assms] have m: "marks st (fullPath doc) = None" .
  from assms(2) have sd: "scanDocument eachNode st doc = rescan eachNode st doc"
    by (simp add: scanDocument_def)
  have "markText st doc =
       st\<lparr>console := console st @ [''Couldn't find the tag information for '' @ fullPath doc]\<rparr>"
    using assms(2) by (simp add: markText_def)
  moreover have "getTagIDAtDocumentPos st doc pos = - 1"
    using m by (simp add: getTagIDAtDocumentPos_def MarkedTextTracker_getRangesAtDocumentPos_def)
  moreover have "fst (generateInstrumentedHTML eachNode st doc)
         = instrument (getText doc) (scan (getText doc) (eachNode (getText doc)))"
    by (simp add: generateInstrumentedHTML_eq sd rescan_def Let_def)
  moreover have "fst (generateInstrumentedHTML eachNode (snd (scanDocument eachNode st doc)) doc)
         = fst (generateInstrumentedHTML eachNode st doc)"
  proof -
    have "cachedValues (snd (rescan eachNode st doc)) (fullPath doc)
        = Some \<lparr>timestamp = diskTimestamp doc,
                cachedTags = scan (getText doc) (eachNode (getText doc))\<rparr>"
      by (simp add: rescan_def Let_def)
    then have "fst (scanDocument eachNode (snd (rescan eachNode st doc)) doc)
        = scan (getText doc) (eachNode (getText doc))"
      by (simp add: scanDocument_def)
    then show ?thesis
      by (simp add: generateInstrumentedHTML_eq sd) (simp add: rescan_def Let_def)
  qed
  moreover have "marks (markText (snd (scanDocument eachNode st doc)) doc) (fullPath doc)
         = Some (scan (getText doc) (eachNode (getText doc)))"
    by (simp add: sd rescan_def Let_def markText_def MarkedTextTracker_markText_def)
  moreover have "marks (markText (snd (generateInstrumentedHTML eachNode st doc)) doc) (fullPath doc)
         = Some (scan (getText doc) (eachNode (getText doc)))"
    by (simp add: generateInstrumentedHTML_eq sd rescan_def Let_def markText_def
        MarkedTextTracker_markText_def)
  ultimately show ?thesis by blast
qed

theorem prior_scan_requirement_witness:
  "cachedValues empty_state (fullPath unclosed_doc) = None
   \<and> markText empty_state unclosed_doc =
       empty_state\<lparr>console := [''Couldn't find the tag information for /unclosed.html'']\<rparr>
   \<and> getTagIDAtDocumentPos empty_state unclosed_doc 2 = - 1
   \<and> marks (markText (snd (scanDocument (\<lambda>t. unclosed_nodes) empty_state unclosed_doc))
        unclosed_doc) ''/unclosed.html''
       = Some [\<lparr>name = ''DIV'', data = 2, start = 0, end' = 5\<rparr>,
               \<lparr>name = ''P'', data = 1, start = 5, end' = 8\<rparr>]"
proof -
  have c: "cachedValues empty_state (fullPath unclosed_doc) = None"
    by (simp add: empty_state_def)
  have sc: "scan (getText unclosed_doc) unclosed_nodes =
     [\<lparr>name = ''DIV'', data = 2, start = 0, end' = 5\<rparr>,
      \<lparr>name = ''P'', data = 1, start = 5, end' = 8\<rparr>]"
    by (simp add: example_defs scan_defs regex_defs)
  from prior_scan_requirement [where eachNode = "\<lambda>t. unclosed_nodes" and pos = 2, OF loaded c] c show ?thesis
    unfolding sc by (simp add: unclosed_doc_def empty_state_def)
qed

text \<open>
  C9 as stated fails for \<^verbatim>\<open>generateInstrumentedHTML\<close>: with nothing in the cache it
  returns the instrumented text of \<^verbatim>\<open><div><p>text\<close> and stores the snapshot.
\<close>

theorem instrument_without_prior_scan:
  "cachedValues empty_state (fullPath unclosed_doc) = None
   \<and> fst (generateInstrumentedHTML (\<lambda>t. unclosed_nodes) empty_state unclosed_doc)
       = ''<div data-brackets-id='2'><p data-brackets-id='1'>text''
   \<and> cachedValues (snd (generateInstrumentedHTML (\<lambda>t. unclosed_nodes) empty_state unclosed_doc))
        (fullPath unclosed_doc)
       = Some \<lparr>timestamp = 7,
               cachedTags = [\<lparr>name = ''DIV'', data = 2, start = 0, end' = 5\<rparr>,
                             \<lparr>name = ''P'', data = 1, start = 5, end' = 8\<rparr>]\<rparr>"
proof -
  have sc: "scan ''<div><p>text'' unclosed_nodes =
     [\<lparr>name = ''DIV'', data = 2, start = 0, end' = 5\<rparr>,
      \<lparr>name = ''P'', data = 1, start = 5, end' = 8\<rparr>]"
    by (simp add: example_defs scan_defs regex_defs)
  show ?thesis
    by (simp add: generateInstrumentedHTML_eq scanDocument_def rescan_def empty_state_def
        unclosed_doc_def sc Let_def instrument_defs)
qed

end
